theory Spec2Isabelle
  imports Main
begin

section \<open>A shallow embedding of \<open>queue.js\<close>\<close>

text \<open>
  The queue of \<open>src/queue.js\<close> is a thin controller over a MongoDB collection. The
  embedding keeps the code's structure: every method of the class \<open>Queue\<close> is a function
  that takes the queue object, the arguments of the call, the readings of the two
  sources of non-determinism the code consults (the clock and the token generator) and
  the database, and returns the value or the exception of the call together with the
  database it leaves behind.

  \<^item> Time is an integer number of milliseconds (a JavaScript \<open>Date\<close>). \<open>add\<close>, \<open>ping\<close> and
    \<open>ack\<close> read the clock once or within one statement and take one reading \<open>now\<close>.
    \<open>get\<close> reads the clock again in every recursive call and in \<open>_moveToDLQ\<close>:
    \<open>get_clocked\<close> takes the stream of the readings, and \<open>get\<close> is the call during which
    the clock does not advance (all readings are \<open>now\<close>).
  \<^item> \<open>_ack()\<close> draws 16 random bytes. The model receives the stream of tokens the
    generator is going to return: \<open>toks 0\<close> is the next one.
  \<^item> An \<open>ObjectId\<close> is a natural number; the driver hands them out in increasing
    order (\<open>next_oid\<close>), and \<open>toHexString\<close> is left out (it is injective).
  \<^item> Durations (\<open>visibility\<close>, \<open>delay\<close>) are whole seconds.
  \<^item> A collection is the list of its documents in insertion (natural) order. It
    enforces the primary key on \<open>_id\<close> and the unique sparse index on \<open>ack\<close> that
    \<open>Queue.connect\<close> creates. The background TTL purge is the store's own and is no part
    of any call of the queue.
\<close>

subsection \<open>Values and documents\<close>

datatype json =
    JNull
  | JBool bool
  | JNum int
  | JStr string
  | JArr "json list"
  | JObj "(string \<times> json) list"

fun isArray :: "json \<Rightarrow> bool" where
  "isArray (JArr xs) = True"
| "isArray x = False"

text \<open>\<open>_arr = x => (Array.isArray(x) ? x : [x])\<close>\<close>

fun arr :: "json \<Rightarrow> json list" where
  "arr (JArr xs) = xs"
| "arr x = [x]"

type_synonym time = int

text \<open>\<open>_plusSecs = s => new Date(Date.now() + s * 1e3)\<close>\<close>

definition plusSecs :: "time \<Rightarrow> int \<Rightarrow> time" where
  "plusSecs now s = now + s * 1000"

text \<open>
  A stored document. The fields \<open>ack\<close> and \<open>deleted\<close> may be missing, which is \<open>None\<close>;
  \<open>oid\<close> is the field \<open>_id\<close>.
\<close>

record doc =
  oid :: nat
  payload :: json
  visible :: time
  tries :: int
  ack :: "string option"
  deleted :: "time option"

text \<open>What \<open>get\<close> returns: \<open>{ id, ack, payload, tries }\<close>.\<close>

record job =
  job_id :: nat
  job_ack :: "string option"
  job_payload :: json
  job_tries :: int

text \<open>
  The exceptions of the code: the two \<open>unknown ack\<close> errors of \<open>ping\<close> and \<open>ack\<close>, and
  the errors of the store (a violated unique index; an empty batch, which the driver's
  \<open>insertMany\<close> rejects).
\<close>

datatype error = UnknownAck string | DuplicateKey | EmptyBatch

record db =
  cols :: "string \<Rightarrow> doc list"
  next_oid :: nat

text \<open>The object built by \<open>Queue.connect\<close>; \<open>col\<close> is the name of its collection.\<close>

datatype queue = Queue
  (col: string)
  (visibility: int)
  (delay: int)
  (deadQueue: "queue option")
  (maxRetries: int)
  (txnDLQ: bool)

subsection \<open>The store\<close>

text \<open>
  \<open>insertOne\<close> of a complete document: refused when its \<open>_id\<close> is taken, or when it
  carries an \<open>ack\<close> that another document carries (unique sparse index).
\<close>

definition insertOne :: "doc \<Rightarrow> doc list \<Rightarrow> error + doc list" where
  "insertOne d c =
     (if (\<exists>e \<in> set c. oid e = oid d) \<or> (ack d \<noteq> None \<and> (\<exists>e \<in> set c. ack e = ack d))
      then Inl DuplicateKey
      else Inr (c @ [d]))"

text \<open>
  \<open>insertMany\<close> of documents without \<open>_id\<close>: the driver numbers them in the order of the
  batch, and \<open>insertedIds\<close> lists the ids in that order.
\<close>

fun new_docs :: "nat \<Rightarrow> time \<Rightarrow> json list \<Rightarrow> doc list" where
  "new_docs n vis [] = []"
| "new_docs n vis (p # ps) =
     \<lparr>oid = n, payload = p, visible = vis, tries = 0, ack = None, deleted = None\<rparr>
       # new_docs (Suc n) vis ps"

definition insertMany :: "string \<Rightarrow> time \<Rightarrow> json list \<Rightarrow> db \<Rightarrow> error + (nat list \<times> db)" where
  "insertMany name vis ps s =
     (if ps = [] then Inl EmptyBatch
      else let ds = new_docs (next_oid s) vis ps
           in Inr (map oid ds,
                   s\<lparr>cols := (cols s)(name := cols s name @ ds),
                     next_oid := next_oid s + length ps\<rparr>))"

text \<open>The first document of a list that satisfies \<open>P\<close> is replaced by its image.\<close>

fun update_first :: "(doc \<Rightarrow> bool) \<Rightarrow> (doc \<Rightarrow> doc) \<Rightarrow> doc list \<Rightarrow> doc list" where
  "update_first P f [] = []"
| "update_first P f (d # ds) = (if P d then f d # ds else d # update_first P f ds)"

text \<open>\<open>sort: { _id: 1 }\<close> followed by taking one: the document with the least \<open>_id\<close>.\<close>

fun first_by_id :: "doc list \<Rightarrow> doc option" where
  "first_by_id [] = None"
| "first_by_id (d # ds) =
     (case first_by_id ds of
        None \<Rightarrow> Some d
      | Some m \<Rightarrow> if oid d \<le> oid m then Some d else Some m)"

fun first_natural :: "doc list \<Rightarrow> doc option" where
  "first_natural [] = None"
| "first_natural (d # ds) = Some d"

text \<open>
  \<open>findOneAndUpdate(query, update, { sort, returnDocument: 'after' })\<close>: the matching
  document that comes first (by \<open>_id\<close> when \<open>by_id\<close>, in natural order otherwise) is
  updated and returned as updated; no match returns \<open>null\<close>. An update that gives the
  document an \<open>ack\<close> carried by another document violates the unique index.
\<close>

definition findOneAndUpdate ::
  "(doc \<Rightarrow> bool) \<Rightarrow> (doc \<Rightarrow> doc) \<Rightarrow> bool \<Rightarrow> doc list \<Rightarrow> error + (doc option \<times> doc list)" where
  "findOneAndUpdate query update by_id c =
     (case (if by_id then first_by_id (filter query c) else first_natural (filter query c)) of
        None \<Rightarrow> Inr (None, c)
      | Some m \<Rightarrow>
          let m' = update m in
          if ack m' \<noteq> ack m \<and> ack m' \<noteq> None \<and> (\<exists>e \<in> set c. oid e \<noteq> oid m \<and> ack e = ack m')
          then Inl DuplicateKey
          else Inr (Some m', update_first (\<lambda>d. d = m) (\<lambda>d. m') c))"

text \<open>\<open>updateOne({ _id: i }, { $set: { deleted: now } })\<close>\<close>

definition updateOne_deleted :: "nat \<Rightarrow> time \<Rightarrow> doc list \<Rightarrow> doc list" where
  "updateOne_deleted i now c = update_first (\<lambda>d. oid d = i) (\<lambda>d. d\<lparr>deleted := Some now\<rparr>) c"

subsection \<open>Produce\<close>

datatype add_result = Id nat | Ids "nat list" | Undefined

text \<open>
  \<open>add(payload, { delay = this._delay } = {})\<close>. The option \<open>dly\<close> is the caller's
  \<open>delay\<close>, if any. The result is \<open>ids\<close> for an array and \<open>ids[0]\<close> otherwise.
\<close>

definition add :: "queue \<Rightarrow> json \<Rightarrow> int option \<Rightarrow> time \<Rightarrow> db \<Rightarrow> (error + add_result) \<times> db" where
  "add q p dly now s =
     (let d = (case dly of None \<Rightarrow> delay q | Some d \<Rightarrow> d);
          vis = (if d \<noteq> 0 then plusSecs now d else now)
      in case insertMany (col q) vis (arr p) s of
           Inl e \<Rightarrow> (Inl e, s)
         | Inr (ids, s') \<Rightarrow>
             (Inr (if isArray p then Ids ids
                   else (case ids of [] \<Rightarrow> Undefined | i # _ \<Rightarrow> Id i)), s'))"

text \<open>\<open>addBulk(payloads, opts) { return this.add(payloads, opts) }\<close>\<close>

definition addBulk :: "queue \<Rightarrow> json \<Rightarrow> int option \<Rightarrow> time \<Rightarrow> db \<Rightarrow> (error + add_result) \<times> db" where
  "addBulk q ps dly now s = add q ps dly now s"

subsection \<open>Dead-letter move\<close>

text \<open>
  \<open>_moveToDLQ(msg)\<close>: the claimed document is inserted into the collection of the
  dead-letter queue, then the source document is marked deleted. With \<open>transactionalDLQ\<close>
  (the client of the driver always has \<open>startSession\<close>) the two writes are one
  transaction, and a failed insert rolls everything back; without it, a failed insert
  is the first write, so nothing has been written either. No crash between the two
  writes is modelled.
\<close>

definition moveToDLQ :: "queue \<Rightarrow> doc \<Rightarrow> time \<Rightarrow> db \<Rightarrow> (error + unit) \<times> db" where
  "moveToDLQ q msg now s =
     (case deadQueue q of
        None \<Rightarrow> (Inr (), s)
      | Some dq \<Rightarrow>
          if txnDLQ q then
            (case insertOne msg (cols s (col dq)) of
               Inl e \<Rightarrow> (Inl e, s)
             | Inr c \<Rightarrow>
                 let s1 = s\<lparr>cols := (cols s)(col dq := c)\<rparr>;
                     s2 = s1\<lparr>cols := (cols s1)(col q := updateOne_deleted (oid msg) now (cols s1 (col q)))\<rparr>
                 in (Inr (), s2))
          else
            (case insertOne msg (cols s (col dq)) of
               Inl e \<Rightarrow> (Inl e, s)
             | Inr c \<Rightarrow>
                 let s1 = s\<lparr>cols := (cols s)(col dq := c)\<rparr>
                 in (Inr (), s1\<lparr>cols := (cols s1)(col q := updateOne_deleted (oid msg) now (cols s1 (col q)))\<rparr>)))"

subsection \<open>Consume\<close>

text \<open>The query of \<open>get\<close> and \<open>size\<close>: \<open>{ deleted: null, visible: { $lte: now } }\<close>.\<close>

definition claimable :: "time \<Rightarrow> doc \<Rightarrow> bool" where
  "claimable now d \<longleftrightarrow> deleted d = None \<and> visible d \<le> now"

text \<open>The query of \<open>ping\<close> and \<open>ack\<close>: \<open>{ ack, visible: { $gt: now }, deleted: null }\<close>.\<close>

definition outstanding :: "string \<Rightarrow> time \<Rightarrow> doc \<Rightarrow> bool" where
  "outstanding a now d \<longleftrightarrow> ack d = Some a \<and> visible d > now \<and> deleted d = None"

text \<open>The update of \<open>get\<close>: \<open>{ $inc: { tries: 1 }, $set: { ack, visible } }\<close>.\<close>

definition claim_update :: "string \<Rightarrow> time \<Rightarrow> doc \<Rightarrow> doc" where
  "claim_update a vis d = d\<lparr>tries := tries d + 1, ack := Some a, visible := vis\<rparr>"

definition claim :: "queue \<Rightarrow> int \<Rightarrow> string \<Rightarrow> time \<Rightarrow> db \<Rightarrow> error + (doc option \<times> doc list)" where
  "claim q v a now s =
     findOneAndUpdate (claimable now) (claim_update a (plusSecs now v)) True (cols s (col q))"

definition to_job :: "doc \<Rightarrow> job" where
  "to_job msg = \<lparr>job_id = oid msg, job_ack = ack msg, job_payload = payload msg, job_tries = tries msg\<rparr>"

text \<open>
  \<open>get({ visibility = this._visibility } = {})\<close>, when the clock does not advance during
  the call: every reading is \<open>now\<close>. The option \<open>vis\<close> is the caller's \<open>visibility\<close>, if
  any; the recursive call passes the visibility on and draws a new token. A failed
  dead-letter move leaves the claim that preceded it in the database.
\<close>

function get ::
  "queue \<Rightarrow> int option \<Rightarrow> (nat \<Rightarrow> string) \<Rightarrow> time \<Rightarrow> db \<Rightarrow> (error + job option) \<times> db" where
  "get q vis toks now s =
     (let v = (case vis of None \<Rightarrow> visibility q | Some v \<Rightarrow> v) in
      case claim q v (toks 0) now s of
        Inl e \<Rightarrow> (Inl e, s)
      | Inr (None, c) \<Rightarrow> (Inr None, s)
      | Inr (Some msg, c) \<Rightarrow>
          let s1 = s\<lparr>cols := (cols s)(col q := c)\<rparr> in
          if deadQueue q \<noteq> None \<and> tries msg > maxRetries q then
            (case moveToDLQ q msg now s1 of
               (Inl e, s2) \<Rightarrow> (Inl e, s2)
             | (Inr u, s2) \<Rightarrow> get q (Some v) (\<lambda>n. toks (Suc n)) now s2)
          else (Inr (Some (to_job msg)), s1))"
  by pat_completeness auto

text \<open>
  \<open>get\<close> with the readings of the clock as the code makes them: \<open>clk 0\<close> is \<open>_now()\<close> in
  the query, \<open>clk 1\<close> is \<open>Date.now()\<close> in \<open>_plusSecs\<close>, \<open>clk 2\<close> is \<open>_now()\<close> in
  \<open>_moveToDLQ\<close>, and the recursive call goes on with the readings from \<open>clk 3\<close>.
\<close>

definition claim_at ::
  "queue \<Rightarrow> int \<Rightarrow> string \<Rightarrow> time \<Rightarrow> time \<Rightarrow> db \<Rightarrow> error + (doc option \<times> doc list)" where
  "claim_at q v a tq ts s =
     findOneAndUpdate (claimable tq) (claim_update a (plusSecs ts v)) True (cols s (col q))"

function get_clocked ::
  "queue \<Rightarrow> int option \<Rightarrow> (nat \<Rightarrow> string) \<Rightarrow> (nat \<Rightarrow> time) \<Rightarrow> db \<Rightarrow> (error + job option) \<times> db" where
  "get_clocked q vis toks clk s =
     (let v = (case vis of None \<Rightarrow> visibility q | Some v \<Rightarrow> v) in
      case claim_at q v (toks 0) (clk 0) (clk 1) s of
        Inl e \<Rightarrow> (Inl e, s)
      | Inr (None, c) \<Rightarrow> (Inr None, s)
      | Inr (Some msg, c) \<Rightarrow>
          let s1 = s\<lparr>cols := (cols s)(col q := c)\<rparr> in
          if deadQueue q \<noteq> None \<and> tries msg > maxRetries q then
            (case moveToDLQ q msg (clk 2) s1 of
               (Inl e, s2) \<Rightarrow> (Inl e, s2)
             | (Inr u, s2) \<Rightarrow>
                 get_clocked q (Some v) (\<lambda>n. toks (Suc n)) (\<lambda>n. clk (n + 3)) s2)
          else (Inr (Some (to_job msg)), s1))"
  by pat_completeness auto

text \<open>
  Ghosts of \<open>get\<close> and \<open>get_clocked\<close> with the same control flow, which count how many
  times the call reaches \<open>return this.get({ visibility })\<close>.
\<close>

function get_clocked_recursions ::
  "queue \<Rightarrow> int option \<Rightarrow> (nat \<Rightarrow> string) \<Rightarrow> (nat \<Rightarrow> time) \<Rightarrow> db \<Rightarrow> nat" where
  "get_clocked_recursions q vis toks clk s =
     (let v = (case vis of None \<Rightarrow> visibility q | Some v \<Rightarrow> v) in
      case claim_at q v (toks 0) (clk 0) (clk 1) s of
        Inl e \<Rightarrow> 0
      | Inr (None, c) \<Rightarrow> 0
      | Inr (Some msg, c) \<Rightarrow>
          let s1 = s\<lparr>cols := (cols s)(col q := c)\<rparr> in
          if deadQueue q \<noteq> None \<and> tries msg > maxRetries q then
            (case moveToDLQ q msg (clk 2) s1 of
               (Inl e, s2) \<Rightarrow> 0
             | (Inr u, s2) \<Rightarrow>
                 Suc (get_clocked_recursions q (Some v) (\<lambda>n. toks (Suc n)) (\<lambda>n. clk (n + 3)) s2))
          else 0)"
  by pat_completeness auto


function get_recursions ::
  "queue \<Rightarrow> int option \<Rightarrow> (nat \<Rightarrow> string) \<Rightarrow> time \<Rightarrow> db \<Rightarrow> nat" where
  "get_recursions q vis toks now s =
     (let v = (case vis of None \<Rightarrow> visibility q | Some v \<Rightarrow> v) in
      case claim q v (toks 0) now s of
        Inl e \<Rightarrow> 0
      | Inr (None, c) \<Rightarrow> 0
      | Inr (Some msg, c) \<Rightarrow>
          let s1 = s\<lparr>cols := (cols s)(col q := c)\<rparr> in
          if deadQueue q \<noteq> None \<and> tries msg > maxRetries q then
            (case moveToDLQ q msg now s1 of
               (Inl e, s2) \<Rightarrow> 0
             | (Inr u, s2) \<Rightarrow> Suc (get_recursions q (Some v) (\<lambda>n. toks (Suc n)) now s2))
          else 0)"
  by pat_completeness auto

text \<open>\<open>ping(ack, { visibility = this._visibility } = {})\<close>\<close>

definition ping :: "queue \<Rightarrow> string \<Rightarrow> int option \<Rightarrow> time \<Rightarrow> db \<Rightarrow> (error + nat) \<times> db" where
  "ping q a vis now s =
     (let v = (case vis of None \<Rightarrow> visibility q | Some v \<Rightarrow> v) in
      case findOneAndUpdate (outstanding a now) (\<lambda>d. d\<lparr>visible := plusSecs now v\<rparr>) False
             (cols s (col q)) of
        Inl e \<Rightarrow> (Inl e, s)
      | Inr (None, c) \<Rightarrow> (Inl (UnknownAck a), s)
      | Inr (Some d, c) \<Rightarrow> (Inr (oid d), s\<lparr>cols := (cols s)(col q := c)\<rparr>))"

text \<open>\<open>ack(ack)\<close>\<close>

definition ack_op :: "queue \<Rightarrow> string \<Rightarrow> time \<Rightarrow> db \<Rightarrow> (error + nat) \<times> db" where
  "ack_op q a now s =
     (case findOneAndUpdate (outstanding a now) (\<lambda>d. d\<lparr>deleted := Some now\<rparr>) False
             (cols s (col q)) of
        Inl e \<Rightarrow> (Inl e, s)
      | Inr (None, c) \<Rightarrow> (Inl (UnknownAck a), s)
      | Inr (Some d, c) \<Rightarrow> (Inr (oid d), s\<lparr>cols := (cols s)(col q := c)\<rparr>))"

subsection \<open>Metrics\<close>

text \<open>
  \<open>total\<close>, \<open>size\<close>, \<open>inFlight\<close> and \<open>done\<close>. The estimate of \<open>estimatedDocumentCount\<close> is
  taken as the exact number of documents.
\<close>

definition total_op :: "queue \<Rightarrow> db \<Rightarrow> nat" where
  "total_op q s = length (cols s (col q))"

definition size_op :: "queue \<Rightarrow> time \<Rightarrow> db \<Rightarrow> nat" where
  "size_op q now s = length (filter (claimable now) (cols s (col q)))"

definition inFlight :: "queue \<Rightarrow> time \<Rightarrow> db \<Rightarrow> nat" where
  "inFlight q now s =
     length (filter (\<lambda>d. ack d \<noteq> None \<and> visible d > now \<and> deleted d = None) (cols s (col q)))"

definition done_op :: "queue \<Rightarrow> db \<Rightarrow> nat" where
  "done_op q s = length (filter (\<lambda>d. deleted d \<noteq> None) (cols s (col q)))"

subsection \<open>Sequences of calls and invariants of the store\<close>

text \<open>
  A consumer in the simplest form of the README,
  \<^verbatim>\<open>const job = await queue.get(); if (job) { ...; await queue.ack(job.ack); }\<close>,
  run several times in a row. A call of \<open>get()\<close> is made at \<open>call_time\<close> and draws its
  tokens from \<open>call_toks\<close>; when \<open>call_ack\<close> is \<open>Some ta\<close> the consumer acknowledges the
  job at time \<open>ta\<close>, when it is \<open>None\<close> the consumer never acknowledges.
\<close>

record call =
  call_time :: time
  call_toks :: "nat \<Rightarrow> string"
  call_ack :: "time option"

definition acknowledge :: "queue \<Rightarrow> call \<Rightarrow> error + job option \<Rightarrow> db \<Rightarrow> db" where
  "acknowledge q c r s =
     (case call_ack c of
        None \<Rightarrow> s
      | Some ta \<Rightarrow>
          (case r of
             Inr (Some j) \<Rightarrow> (case job_ack j of Some a \<Rightarrow> snd (ack_op q a ta s) | None \<Rightarrow> s)
           | _ \<Rightarrow> s))"

fun gets :: "queue \<Rightarrow> call list \<Rightarrow> db \<Rightarrow> (error + job option) list \<times> db" where
  "gets q [] s = ([], s)"
| "gets q (c # cs) s =
     (case get q None (call_toks c) (call_time c) s of
        (r, s1) \<Rightarrow> (case gets q cs (acknowledge q c r s1) of (rs, s2) \<Rightarrow> (r # rs, s2)))"

text \<open>
  No interference between the calls of a sequence: the job of a call is acknowledged
  before its visibility window (of \<open>v\<close> seconds) ends, or every later call is made
  before the window ends.
\<close>

fun undisturbed :: "int \<Rightarrow> call list \<Rightarrow> bool" where
  "undisturbed v [] = True"
| "undisturbed v (c # cs) =
     (((case call_ack c of None \<Rightarrow> False | Some ta \<Rightarrow> ta < call_time c + v * 1000)
        \<or> (\<forall>c' \<in> set cs. call_time c' < call_time c + v * 1000))
      \<and> undisturbed v cs)"

text \<open>A record as \<open>add\<close> made it at time \<open>t0\<close>, never claimed.\<close>

definition fresh :: "time \<Rightarrow> doc \<Rightarrow> bool" where
  "fresh t0 d \<longleftrightarrow> deleted d = None \<and> visible d = t0 \<and> tries d = 0 \<and> ack d = None"

text \<open>The unique sparse index on \<open>ack\<close>: no token is carried by two documents.\<close>

definition ack_unique :: "doc list \<Rightarrow> bool" where
  "ack_unique c \<longleftrightarrow> distinct (filter (\<lambda>a. a \<noteq> None) (map ack c))"

text \<open>The identifiers that a dead-letter move can still take from the queue.\<close>

definition pending_ids :: "queue \<Rightarrow> db \<Rightarrow> nat set" where
  "pending_ids q s =
     (case deadQueue q of
        None \<Rightarrow> {}
      | Some dq \<Rightarrow> oid ` set (cols s (col q)) - oid ` set (cols s (col dq)))"

text \<open>The identifiers of claimable documents that the dead-letter queue does not hold yet.\<close>

definition claimable_pending :: "queue \<Rightarrow> queue \<Rightarrow> time \<Rightarrow> db \<Rightarrow> nat set" where
  "claimable_pending q dq now s =
     oid ` {d \<in> set (cols s (col q)). claimable now d} - oid ` set (cols s (col dq))"

text \<open>The identifiers of documents with no \<open>deleted\<close> that the dead-letter queue does not hold yet.\<close>

definition undeleted_pending :: "queue \<Rightarrow> queue \<Rightarrow> db \<Rightarrow> nat set" where
  "undeleted_pending q dq s =
     oid ` {d \<in> set (cols s (col q)). deleted d = None} - oid ` set (cols s (col dq))"

text \<open>The identifiers of the documents of a collection that are marked deleted.\<close>

definition deleted_ids :: "doc list \<Rightarrow> nat set" where
  "deleted_ids c = oid ` {d \<in> set c. deleted d \<noteq> None}"

text \<open>
  What the store guarantees of every collection: the primary key, the unique index on
  \<open>ack\<close>, and identifiers that the driver has already handed out.
\<close>

definition wf_col :: "nat \<Rightarrow> doc list \<Rightarrow> bool" where
  "wf_col n c \<longleftrightarrow> distinct (map oid c) \<and> ack_unique c \<and> (\<forall>d \<in> set c. oid d < n)"

definition wf_db :: "db \<Rightarrow> bool" where
  "wf_db s \<longleftrightarrow> (\<forall>name. wf_col (next_oid s) (cols s name))"

text \<open>A token that only acknowledged documents of the collection carry (and one does).\<close>

definition spent :: "string \<Rightarrow> doc list \<Rightarrow> bool" where
  "spent a c \<longleftrightarrow> (\<exists>d \<in> set c. ack d = Some a) \<and> (\<forall>d \<in> set c. ack d = Some a \<longrightarrow> deleted d \<noteq> None)"

text \<open>Any call of any queue, and sequences of them.\<close>

datatype invocation =
    Add queue json "int option" time
  | Get queue "int option" "nat \<Rightarrow> string" time
  | Ping queue string "int option" time
  | Ack queue string time

fun invoke :: "invocation \<Rightarrow> db \<Rightarrow> db" where
  "invoke (Add q p dly now) s = snd (add q p dly now s)"
| "invoke (Get q vis toks now) s = snd (get q vis toks now s)"
| "invoke (Ping q a vis now) s = snd (ping q a vis now s)"
| "invoke (Ack q a now) s = snd (ack_op q a now s)"

fun run :: "invocation list \<Rightarrow> db \<Rightarrow> db" where
  "run [] s = s"
| "run (x # xs) s = run xs (invoke x s)"

text \<open>A collection in which a document that was never claimed (\<open>tries = 0\<close>) carries no token.\<close>

definition unclaimed_clean :: "doc list \<Rightarrow> bool" where
  "unclaimed_clean c \<longleftrightarrow> (\<forall>d \<in> set c. 0 \<le> tries d \<and> (tries d = 0 \<longrightarrow> ack d = None))"

subsection \<open>Example data\<close>

text \<open>
  The queues of the scenario of the specification: \<open>Q0\<close> has a visibility of one second,
  no retries and the dead-letter queue \<open>D0\<close>; \<open>Q1\<close> is a queue with the defaults of
  \<open>Queue.connect\<close>. The token stream \<open>toks0\<close> returns \<open>a\<close>, \<open>aa\<close>, \<open>aaa\<close>, ...
\<close>

definition empty_db :: db where
  "empty_db = \<lparr>cols = (\<lambda>n. []), next_oid = 0\<rparr>"

definition D0 :: queue where
  "D0 = Queue ''dead'' 30 0 None 5 False"

definition Q0 :: queue where
  "Q0 = Queue ''jobs'' 1 0 (Some D0) 0 False"

definition Q1 :: queue where
  "Q1 = Queue ''jobs'' 30 0 None 5 False"

definition toks0 :: "nat \<Rightarrow> string" where
  "toks0 n = replicate (Suc n) CHR ''a''"

text \<open>A collection with one acknowledged document and one that is not visible yet.\<close>

definition db_idle :: db where
  "db_idle =
     \<lparr>cols = (\<lambda>n. [])(''jobs'' :=
        [\<lparr>oid = 0, payload = JStr ''a'', visible = 1000, tries = 1, ack = Some ''t'', deleted = Some 10\<rparr>,
         \<lparr>oid = 1, payload = JStr ''b'', visible = 9000, tries = 0, ack = None, deleted = None\<rparr>]),
      next_oid = 2\<rparr>"

text \<open>A collection with one claimed document.\<close>

definition db_claimed :: db where
  "db_claimed =
     \<lparr>cols = (\<lambda>n. [])(''jobs'' :=
        [\<lparr>oid = 0, payload = JStr ''a'', visible = 30000, tries = 1, ack = Some ''t'', deleted = None\<rparr>]),
      next_oid = 1\<rparr>"

text \<open>A collection with two new documents.\<close>

definition db_two :: db where
  "db_two =
     \<lparr>cols = (\<lambda>n. [])(''jobs'' :=
        [\<lparr>oid = 0, payload = JStr ''a'', visible = 0, tries = 0, ack = None, deleted = None\<rparr>,
         \<lparr>oid = 1, payload = JStr ''b'', visible = 0, tries = 0, ack = None, deleted = None\<rparr>]),
      next_oid = 2\<rparr>"

text \<open>A collection with one new document.\<close>

definition db_one :: db where
  "db_one =
     \<lparr>cols = (\<lambda>n. [])(''jobs'' :=
        [\<lparr>oid = 0, payload = JStr ''job1'', visible = 0, tries = 0, ack = None, deleted = None\<rparr>]),
      next_oid = 1\<rparr>"

text \<open>Three new documents, stored out of the order of their identifiers.\<close>

definition db_three :: db where
  "db_three =
     \<lparr>cols = (\<lambda>n. [])(''jobs'' :=
        [\<lparr>oid = 2, payload = JStr ''c'', visible = 0, tries = 0, ack = None, deleted = None\<rparr>,
         \<lparr>oid = 0, payload = JStr ''a'', visible = 0, tries = 0, ack = None, deleted = None\<rparr>,
         \<lparr>oid = 1, payload = JStr ''b'', visible = 0, tries = 0, ack = None, deleted = None\<rparr>]),
      next_oid = 3\<rparr>"

text \<open>Three calls: the first and the last acknowledge, the second does not.\<close>

definition calls_three :: "call list" where
  "calls_three =
     [\<lparr>call_time = 0, call_toks = (\<lambda>n. ''x''), call_ack = Some 5\<rparr>,
      \<lparr>call_time = 40000, call_toks = (\<lambda>n. ''y''), call_ack = None\<rparr>,
      \<lparr>call_time = 50000, call_toks = (\<lambda>n. ''z''), call_ack = Some 60000\<rparr>]"

text \<open>
  Two calls at time 0, neither acknowledged, with tokens that differ from each other and
  from one reading of the generator to the next.
\<close>

definition calls_two :: "call list" where
  "calls_two =
     [\<lparr>call_time = 0, call_toks = (\<lambda>n. replicate (Suc n) CHR ''a''), call_ack = None\<rparr>,
      \<lparr>call_time = 0, call_toks = (\<lambda>n. replicate (Suc n) CHR ''b''), call_ack = None\<rparr>]"

text \<open>A clock that jumps after the first three readings, and a record that becomes visible meanwhile.\<close>

definition clk_late :: "nat \<Rightarrow> time" where
  "clk_late n = (if n < 3 then 0 else 10000)"

definition db_late :: db where
  "db_late =
     \<lparr>cols = (\<lambda>n. [])(''jobs'' :=
        [\<lparr>oid = 0, payload = JStr ''a'', visible = 0, tries = 0, ack = None, deleted = None\<rparr>,
         \<lparr>oid = 1, payload = JStr ''b'', visible = 5000, tries = 0, ack = None, deleted = None\<rparr>]),
      next_oid = 2\<rparr>"

section \<open>Properties\<close>

subsection \<open>The store\<close>

lemma update_first_oids:
  "(\<And>d. oid (f d) = oid d) \<Longrightarrow> map oid (update_first P f c) = map oid c"
  by (induction c) auto

lemma update_first_replace_oids:
  "oid m' = oid m \<Longrightarrow> map oid (update_first (\<lambda>d. d = m) (\<lambda>d. m') c) = map oid c"
  by (induction c) auto

lemma first_by_id_mem: "first_by_id ds = Some m \<Longrightarrow> m \<in> set ds"
  by (induction ds arbitrary: m) (auto split: option.splits if_splits)

lemma first_by_id_None: "first_by_id ds = None \<longleftrightarrow> ds = []"
  by (cases ds) (auto split: option.splits)

lemma first_by_id_least: "first_by_id ds = Some m \<Longrightarrow> \<forall>d \<in> set ds. oid m \<le> oid d"
proof (induction ds arbitrary: m)
  case Nil
  then show ?case by simp
next
  case (Cons a ds)
  show ?case
  proof (cases "first_by_id ds")
    case None
    then have "ds = []" by (simp add: first_by_id_None)
    with Cons.prems None show ?thesis by simp
  next
    case (Some k)
    have k: "\<forall>e \<in> set ds. oid k \<le> oid e"
      using Cons.IH[OF Some] .
    from Cons.prems Some k show ?thesis
      by (auto split: if_splits)
  qed
qed

lemma claim_SomeD:
  assumes "claim q v a now s = Inr (Some msg, c)"
  obtains m where "m \<in> set (cols s (col q))" "claimable now m"
    "first_by_id (filter (claimable now) (cols s (col q))) = Some m"
    "msg = claim_update a (plusSecs now v) m"
    "c = update_first (\<lambda>d. d = m) (\<lambda>d. msg) (cols s (col q))"
proof -
  from assms obtain m where m: "first_by_id (filter (claimable now) (cols s (col q))) = Some m"
    and r: "msg = claim_update a (plusSecs now v) m"
           "c = update_first (\<lambda>d. d = m) (\<lambda>d. msg) (cols s (col q))"
    by (auto simp: claim_def findOneAndUpdate_def Let_def split: option.splits if_splits)
  from first_by_id_mem[OF m] have "m \<in> set (cols s (col q))" "claimable now m" by auto
  with m r that show thesis by blast
qed

lemma claim_oids:
  assumes "claim q v a now s = Inr (Some msg, c)"
  shows "map oid c = map oid (cols s (col q))" and "oid msg \<in> oid ` set (cols s (col q))"
proof -
  from assms obtain m where m: "m \<in> set (cols s (col q))"
    "msg = claim_update a (plusSecs now v) m"
    "c = update_first (\<lambda>d. d = m) (\<lambda>d. msg) (cols s (col q))"
    by (rule claim_SomeD)
  have o: "oid msg = oid m" using m(2) by (simp add: claim_update_def)
  show "map oid c = map oid (cols s (col q))"
    unfolding m(3) by (rule update_first_replace_oids[OF o])
  show "oid msg \<in> oid ` set (cols s (col q))" using o m(1) by auto
qed

lemma moveToDLQ_InrD:
  assumes "moveToDLQ q msg now s = (Inr u, s')" and "deadQueue q = Some dq"
  shows "oid msg \<notin> oid ` set (cols s (col dq))"
    and "ack msg = None \<or> ack msg \<notin> ack ` set (cols s (col dq))"
    and "s' = s\<lparr>cols := (cols s)(col dq := cols s (col dq) @ [msg],
                 col q := updateOne_deleted (oid msg) now (((cols s)(col dq := cols s (col dq) @ [msg])) (col q)))\<rparr>"
  using assms
  by (auto simp: moveToDLQ_def insertOne_def Let_def split: if_splits sum.splits)

lemma get_step_decreases:
  assumes c: "claim q v a now s = Inr (Some msg, c)"
    and m: "moveToDLQ q msg now (s\<lparr>cols := (cols s)(col q := c)\<rparr>) = (Inr u, s2)"
    and dq: "deadQueue q \<noteq> None"
  shows "card (pending_ids q s2) < card (pending_ids q s)"
proof -
  from dq obtain dq where dq: "deadQueue q = Some dq" by auto
  let ?s1 = "s\<lparr>cols := (cols s)(col q := c)\<rparr>"
  note co = claim_oids[OF c]
  note mv = moveToDLQ_InrD[OF m dq]
  have ne: "col dq \<noteq> col q"
  proof
    assume "col dq = col q"
    with mv(1) have "oid msg \<notin> oid ` set c" by simp
    moreover have "oid ` set c = oid ` set (cols s (col q))"
      using co(1) by (metis set_map)
    ultimately show False using co(2) by simp
  qed
  have q2: "oid ` set (cols s2 (col q)) = oid ` set (cols s (col q))"
  proof -
    have "map oid (cols s2 (col q)) = map oid c"
      using ne by (simp add: mv(3) updateOne_deleted_def update_first_oids)
    then show ?thesis using co(1) by (metis set_map)
  qed
  have d2: "oid ` set (cols s2 (col dq)) = insert (oid msg) (oid ` set (cols s (col dq)))"
    using ne by (simp add: mv(3))
  have notin: "oid msg \<notin> oid ` set (cols s (col dq))"
    using mv(1) ne by simp
  have "pending_ids q s2 = pending_ids q s - {oid msg}"
    by (auto simp: pending_ids_def dq q2 d2)
  moreover have "oid msg \<in> pending_ids q s"
    using co(2) notin by (simp add: pending_ids_def dq)
  moreover have "finite (pending_ids q s)"
    by (simp add: pending_ids_def dq)
  ultimately show ?thesis
    by (metis card_Diff1_less)
qed

termination get
proof (relation "measure (\<lambda>(q, vis, toks, now, s). card (pending_ids q s))", goal_cases)
  case 1
  show ?case by simp
next
  case 2
  then show ?case
    using get_step_decreases by (auto)
qed


termination get_recursions
proof (relation "measure (\<lambda>(q, vis, toks, now, s). card (pending_ids q s))", goal_cases)
  case 1
  show ?case by simp
next
  case 2
  then show ?case
    using get_step_decreases by auto
qed

declare get.simps [simp del] get_recursions.simps [simp del]

subsection \<open>An idle queue\<close>

lemma claim_none:
  assumes "\<forall>d \<in> set (cols s (col q)). \<not> claimable now d"
  shows "claim q v a now s = Inr (None, cols s (col q))"
proof -
  have "filter (claimable now) (cols s (col q)) = []"
    using assms by (simp add: filter_empty_conv)
  then show ?thesis
    by (simp add: claim_def findOneAndUpdate_def)
qed

lemma get_idle:
  assumes "\<forall>d \<in> set (cols s (col q)). \<not> claimable now d"
  shows "get q vis toks now s = (Inr None, s)"
  by (subst get.simps) (simp add: claim_none [OF assms])

text \<open>
  Claim C9. When every document of the queue's collection has \<open>deleted\<close> set or becomes
  visible only after \<open>now\<close>, \<open>get()\<close> returns \<open>null\<close> (the empty result), raises nothing
  and leaves the database as it was.
\<close>

theorem get_empty:
  assumes "\<forall>d \<in> set (cols s (col q)). deleted d \<noteq> None \<or> visible d > now"
  shows "get q vis toks now s = (Inr None, s)"
proof -
  have "\<forall>d \<in> set (cols s (col q)). \<not> claimable now d"
    using assms by (auto simp: claimable_def)
  then show ?thesis
    by (rule get_idle)
qed

theorem get_empty_witness:
  "get Q0 None toks0 5 db_idle = (Inr None, db_idle)"
proof -
  have h: "\<forall>d \<in> set (cols db_idle (col Q0)). deleted d \<noteq> None \<or> visible d > 5"
    by (simp add: db_idle_def Q0_def)
  show ?thesis by (rule get_empty [OF h])
qed

subsection \<open>Adding\<close>

lemma new_docs_enumerate:
  "new_docs n vis ps =
     map (\<lambda>(i, p). \<lparr>oid = i, payload = p, visible = vis, tries = 0, ack = None, deleted = None\<rparr>)
       (enumerate n ps)"
  by (induction ps arbitrary: n) simp_all

lemma new_docs_oids: "map oid (new_docs n vis ps) = [n ..< n + length ps]"
  by (induction ps arbitrary: n) (simp_all add: upt_rec)

lemma plusSecs_zero: "(if d \<noteq> 0 then plusSecs now d else now) = now + d * 1000"
  by (simp add: plusSecs_def)

lemma add_single:
  assumes "\<not> isArray p"
  shows "add q p dly now s =
     (Inr (Id (next_oid s)),
      s\<lparr>cols := (cols s)(col q := cols s (col q) @
            [\<lparr>oid = next_oid s, payload = p,
              visible = now + (case dly of None \<Rightarrow> delay q | Some d \<Rightarrow> d) * 1000,
              tries = 0, ack = None, deleted = None\<rparr>]),
        next_oid := next_oid s + 1\<rparr>)"
proof -
  from assms have a: "arr p = [p]" by (cases p) simp_all
  show ?thesis
    using assms by (simp add: add_def insertMany_def a Let_def plusSecs_zero)
qed

lemma add_batch:
  assumes "ps \<noteq> []"
  shows "add q (JArr ps) dly now s =
     (Inr (Ids [next_oid s ..< next_oid s + length ps]),
      s\<lparr>cols := (cols s)(col q := cols s (col q) @
            map (\<lambda>(i, p). \<lparr>oid = i, payload = p,
                   visible = now + (case dly of None \<Rightarrow> delay q | Some d \<Rightarrow> d) * 1000,
                   tries = 0, ack = None, deleted = None\<rparr>)
              (enumerate (next_oid s) ps)),
        next_oid := next_oid s + length ps\<rparr>)"
proof -
  let ?vis = "now + (case dly of None \<Rightarrow> delay q | Some d \<Rightarrow> d) * 1000"
  have "add q (JArr ps) dly now s =
     (Inr (Ids (map oid (new_docs (next_oid s) ?vis ps))),
      s\<lparr>cols := (cols s)(col q := cols s (col q) @ new_docs (next_oid s) ?vis ps),
        next_oid := next_oid s + length ps\<rparr>)"
    using assms by (simp add: add_def insertMany_def Let_def plusSecs_zero)
  then show ?thesis
    unfolding new_docs_oids unfolding new_docs_enumerate .
qed

text \<open>
  Claim C8. \<open>add\<close> appends one document per payload, each with \<open>tries = 0\<close>, no
  \<open>ack\<close>, no \<open>deleted\<close> and \<open>visible = now + delay\<close> (in milliseconds), where the delay
  is the caller's or, when the caller gives none, the queue's default (so \<open>visible = now\<close>
  for a delay of 0). A single payload returns the single new id; a batch returns the
  ids in the order of the payloads: the document of the \<open>i\<close>-th payload carries the
  \<open>i\<close>-th id. (The driver refuses an empty batch, so the batch is taken non-empty.)
\<close>

theorem add_inserts:
  "(\<not> isArray p \<longrightarrow>
      add q p dly now s =
        (Inr (Id (next_oid s)),
         s\<lparr>cols := (cols s)(col q := cols s (col q) @
               [\<lparr>oid = next_oid s, payload = p,
                 visible = now + (case dly of None \<Rightarrow> delay q | Some d \<Rightarrow> d) * 1000,
                 tries = 0, ack = None, deleted = None\<rparr>]),
           next_oid := next_oid s + 1\<rparr>))
   \<and> (ps \<noteq> [] \<longrightarrow>
      add q (JArr ps) dly now s =
        (Inr (Ids [next_oid s ..< next_oid s + length ps]),
         s\<lparr>cols := (cols s)(col q := cols s (col q) @
               map (\<lambda>(i, p). \<lparr>oid = i, payload = p,
                      visible = now + (case dly of None \<Rightarrow> delay q | Some d \<Rightarrow> d) * 1000,
                      tries = 0, ack = None, deleted = None\<rparr>)
                 (enumerate (next_oid s) ps)),
           next_oid := next_oid s + length ps\<rparr>))"
  using add_single add_batch by blast

theorem add_inserts_witness:
  "add Q1 (JStr ''job1'') None 7 empty_db =
     (Inr (Id 0),
      \<lparr>cols = (\<lambda>n. [])(''jobs'' :=
         [\<lparr>oid = 0, payload = JStr ''job1'', visible = 7, tries = 0, ack = None, deleted = None\<rparr>]),
       next_oid = 1\<rparr>)
   \<and> add Q1 (JArr [JStr ''a'', JStr ''b'', JStr ''c'']) (Some 2) 7 empty_db =
     (Inr (Ids [0, 1, 2]),
      \<lparr>cols = (\<lambda>n. [])(''jobs'' :=
         [\<lparr>oid = 0, payload = JStr ''a'', visible = 2007, tries = 0, ack = None, deleted = None\<rparr>,
          \<lparr>oid = 1, payload = JStr ''b'', visible = 2007, tries = 0, ack = None, deleted = None\<rparr>,
          \<lparr>oid = 2, payload = JStr ''c'', visible = 2007, tries = 0, ack = None, deleted = None\<rparr>]),
       next_oid = 3\<rparr>)"
proof -
  have a: "\<not> isArray (JStr ''job1'')" by simp
  have b: "[JStr ''a'', JStr ''b'', JStr ''c''] \<noteq> []" by simp
  have u: "[0 ..< 3] = [0, Suc 0, 2]" by (simp add: upt_rec)
  from add_inserts [where p = "JStr ''job1''" and q = Q1 and dly = None and now = 7
      and s = empty_db]
    add_inserts [where ps = "[JStr ''a'', JStr ''b'', JStr ''c'']" and q = Q1 and dly = "Some 2"
      and now = 7 and s = empty_db] a b
  show ?thesis
    by (simp add: Q1_def empty_db_def enumerate_eq_zip u eval_nat_numeral)
qed

subsection \<open>Extending and acknowledging\<close>

lemma update_first_at:
  "d \<notin> set pre \<Longrightarrow> update_first (\<lambda>e. e = d) f (pre @ d # post) = pre @ f d # post"
  by (induction pre) auto

lemma findOneAndUpdate_none:
  assumes "\<forall>e \<in> set c. \<not> P e"
  shows "findOneAndUpdate P f b c = Inr (None, c)"
proof -
  have "filter P c = []" using assms by (simp add: filter_empty_conv)
  then show ?thesis by (simp add: findOneAndUpdate_def)
qed

lemma findOneAndUpdate_natural:
  assumes c: "c = pre @ d # post" and d: "P d" and pre: "\<forall>e \<in> set pre. \<not> P e"
    and a: "ack (f d) = ack d"
  shows "findOneAndUpdate P f False c = Inr (Some (f d), pre @ f d # post)"
proof -
  have "filter P pre = []" using pre by (simp add: filter_empty_conv)
  then have "first_natural (filter P c) = Some d" using c d by simp
  moreover have "d \<notin> set pre" using d pre by blast
  ultimately show ?thesis
    using a by (simp add: findOneAndUpdate_def c update_first_at Let_def)
qed

lemma ping_found:
  assumes "cols s (col q) = pre @ d # post" and "outstanding a now d"
    and "\<forall>e \<in> set pre. \<not> outstanding a now e"
  shows "ping q a vis now s =
     (Inr (oid d),
      s\<lparr>cols := (cols s)(col q :=
           pre @ d\<lparr>visible := now + (case vis of None \<Rightarrow> visibility q | Some v \<Rightarrow> v) * 1000\<rparr> # post)\<rparr>)"
  using findOneAndUpdate_natural [OF assms, of "\<lambda>d. d\<lparr>visible := plusSecs now (case vis of None \<Rightarrow> visibility q | Some v \<Rightarrow> v)\<rparr>"]
  by (simp add: ping_def plusSecs_def)

lemma ping_not_found:
  assumes "\<forall>e \<in> set (cols s (col q)). \<not> outstanding a now e"
  shows "ping q a vis now s = (Inl (UnknownAck a), s)"
  by (simp add: ping_def findOneAndUpdate_none [OF assms])

lemma ack_op_found:
  assumes "cols s (col q) = pre @ d # post" and "outstanding a now d"
    and "\<forall>e \<in> set pre. \<not> outstanding a now e"
  shows "ack_op q a now s =
     (Inr (oid d), s\<lparr>cols := (cols s)(col q := pre @ d\<lparr>deleted := Some now\<rparr> # post)\<rparr>)"
  using findOneAndUpdate_natural [OF assms, of "\<lambda>d. d\<lparr>deleted := Some now\<rparr>"]
  by (simp add: ack_op_def)

lemma ack_op_not_found:
  assumes "\<forall>e \<in> set (cols s (col q)). \<not> outstanding a now e"
  shows "ack_op q a now s = (Inl (UnknownAck a), s)"
  by (simp add: ack_op_def findOneAndUpdate_none [OF assms])

lemma ping_succeeds_iff:
  "(\<exists>i s'. ping q a vis now s = (Inr i, s')) \<longleftrightarrow>
   (\<exists>d \<in> set (cols s (col q)). outstanding a now d)"
proof
  assume ok: "\<exists>i s'. ping q a vis now s = (Inr i, s')"
  show "\<exists>d \<in> set (cols s (col q)). outstanding a now d"
  proof (rule ccontr)
    assume "\<not> (\<exists>d \<in> set (cols s (col q)). outstanding a now d)"
    then have "\<forall>e \<in> set (cols s (col q)). \<not> outstanding a now e" by blast
    from ping_not_found [OF this] ok show False by simp
  qed
next
  assume "\<exists>d \<in> set (cols s (col q)). outstanding a now d"
  from split_list_first_prop [OF this]
  obtain pre d post where "cols s (col q) = pre @ d # post" "outstanding a now d"
    "\<forall>e \<in> set pre. \<not> outstanding a now e"
    by blast
  from ping_found [OF this] show "\<exists>i s'. ping q a vis now s = (Inr i, s')" by blast
qed

text \<open>
  Claim C4. \<open>ping(ack, { visibility })\<close> succeeds exactly when some document of the
  collection carries the token, is visible only after \<open>now\<close> and has no \<open>deleted\<close>. On
  success the first such document (the unique index leaves no second one) gets
  \<open>visible = now + visibility\<close> and nothing else changes; otherwise the call fails with
  the unknown-ack error and the database is as before.
\<close>

theorem ping_extends:
  "((\<exists>i s'. ping q a vis now s = (Inr i, s')) \<longleftrightarrow>
      (\<exists>d \<in> set (cols s (col q)). ack d = Some a \<and> now < visible d \<and> deleted d = None))
   \<and> (cols s (col q) = pre @ d # post \<and> ack d = Some a \<and> now < visible d \<and> deleted d = None
        \<and> (\<forall>e \<in> set pre. \<not> (ack e = Some a \<and> now < visible e \<and> deleted e = None)) \<longrightarrow>
      ping q a vis now s =
        (Inr (oid d),
         s\<lparr>cols := (cols s)(col q :=
              pre @ d\<lparr>visible := now + (case vis of None \<Rightarrow> visibility q | Some v \<Rightarrow> v) * 1000\<rparr>
                # post)\<rparr>))
   \<and> ((\<forall>e \<in> set (cols s (col q)). \<not> (ack e = Some a \<and> now < visible e \<and> deleted e = None)) \<longrightarrow>
      ping q a vis now s = (Inl (UnknownAck a), s))"
  using ping_succeeds_iff [of q a vis now s] ping_found [of s q pre d post a now vis]
    ping_not_found [of s q a now vis]
  unfolding outstanding_def by blast

theorem ping_extends_witness:
  "ping Q1 ''t'' (Some 60) 1000 db_claimed =
     (Inr 0,
      \<lparr>cols = (\<lambda>n. [])(''jobs'' :=
        [\<lparr>oid = 0, payload = JStr ''a'', visible = 61000, tries = 1, ack = Some ''t'', deleted = None\<rparr>]),
       next_oid = 1\<rparr>)
   \<and> ping Q1 ''t'' (Some 60) 30000 db_claimed = (Inl (UnknownAck ''t''), db_claimed)
   \<and> ping Q1 ''u'' None 1000 db_claimed = (Inl (UnknownAck ''u''), db_claimed)"
proof -
  let ?d = "\<lparr>oid = 0, payload = JStr ''a'', visible = 30000, tries = 1, ack = Some ''t'', deleted = None\<rparr>"
  have c: "cols db_claimed (col Q1) = [] @ ?d # []"
    by (simp add: db_claimed_def Q1_def)
  from ping_extends [where q = Q1 and a = "''t''" and vis = "Some 60" and now = 1000
      and s = db_claimed and pre = "[]" and d = ?d and post = "[]"] c
  have 1: "ping Q1 ''t'' (Some 60) 1000 db_claimed =
     (Inr 0,
      \<lparr>cols = (\<lambda>n. [])(''jobs'' :=
        [\<lparr>oid = 0, payload = JStr ''a'', visible = 61000, tries = 1, ack = Some ''t'', deleted = None\<rparr>]),
       next_oid = 1\<rparr>)"
    by (simp add: db_claimed_def Q1_def)
  from ping_extends [where q = Q1 and a = "''t''" and vis = "Some 60" and now = 30000
      and s = db_claimed] c
  have 2: "ping Q1 ''t'' (Some 60) 30000 db_claimed = (Inl (UnknownAck ''t''), db_claimed)"
    by simp
  from ping_extends [where q = Q1 and a = "''u''" and vis = None and now = 1000
      and s = db_claimed] c
  have 3: "ping Q1 ''u'' None 1000 db_claimed = (Inl (UnknownAck ''u''), db_claimed)"
    by simp
  from 1 2 3 show ?thesis by blast
qed

subsection \<open>A successful acknowledgement\<close>

lemma ack_op_InrD:
  assumes "ack_op q a now s = (Inr i, s')"
  obtains pre d post where "cols s (col q) = pre @ d # post" "outstanding a now d"
    "\<forall>e \<in> set pre. \<not> outstanding a now e" "i = oid d"
    "s' = s\<lparr>cols := (cols s)(col q := pre @ d\<lparr>deleted := Some now\<rparr> # post)\<rparr>"
proof (cases "\<exists>d \<in> set (cols s (col q)). outstanding a now d")
  case False
  then have "\<forall>e \<in> set (cols s (col q)). \<not> outstanding a now e" by blast
  from ack_op_not_found [OF this] assms show ?thesis by simp
next
  case True
  from split_list_first_prop [OF this]
  obtain pre d post where *: "cols s (col q) = pre @ d # post" "outstanding a now d"
    "\<forall>e \<in> set pre. \<not> outstanding a now e"
    by blast
  from ack_op_found [OF *] assms
  have "i = oid d" "s' = s\<lparr>cols := (cols s)(col q := pre @ d\<lparr>deleted := Some now\<rparr> # post)\<rparr>"
    by simp_all
  with * that show ?thesis by blast
qed

lemma ack_unique_others:
  assumes "ack_unique (pre @ d # post)" and "ack d = Some a"
  shows "\<forall>e \<in> set pre \<union> set post. ack e \<noteq> Some a"
proof -
  from assms have "distinct (filter (\<lambda>x. x \<noteq> None) (map ack pre) @ Some a #
      filter (\<lambda>x. x \<noteq> None) (map ack post))"
    by (simp add: ack_unique_def)
  then have "Some a \<notin> set (map ack pre)" "Some a \<notin> set (map ack post)"
    by auto
  then show ?thesis by force
qed

subsection \<open>One call of \<open>get\<close>\<close>

lemma claim_split:
  assumes "claim q v a now s = Inr (Some msg, c)"
  obtains pre m post where "cols s (col q) = pre @ m # post" "m \<notin> set pre" "claimable now m"
    "\<forall>e \<in> set (cols s (col q)). claimable now e \<longrightarrow> oid m \<le> oid e"
    "msg = claim_update a (plusSecs now v) m" "c = pre @ msg # post"
proof -
  from assms obtain m where m: "m \<in> set (cols s (col q))" "claimable now m"
    and f: "first_by_id (filter (claimable now) (cols s (col q))) = Some m"
    and r: "msg = claim_update a (plusSecs now v) m"
      "c = update_first (\<lambda>d. d = m) (\<lambda>d. msg) (cols s (col q))"
    by (rule claim_SomeD)
  from split_list_first [OF m(1)] obtain pre post where
    p: "cols s (col q) = pre @ m # post" "m \<notin> set pre" by blast
  have "c = pre @ msg # post"
    using r(2) p by (simp add: update_first_at)
  moreover have "\<forall>e \<in> set (cols s (col q)). claimable now e \<longrightarrow> oid m \<le> oid e"
    using first_by_id_least [OF f] by simp
  ultimately show thesis using that p m(2) r(1) by blast
qed

lemma claim_found:
  assumes "first_by_id (filter (claimable now) (cols s (col q))) = Some m"
    and "cols s (col q) = pre @ m # post" and "m \<notin> set pre"
    and "\<forall>e \<in> set (cols s (col q)). oid e \<noteq> oid m \<longrightarrow> ack e \<noteq> Some a"
  shows "claim q v a now s =
     Inr (Some (claim_update a (plusSecs now v) m), pre @ claim_update a (plusSecs now v) m # post)"
proof -
  let ?msg = "claim_update a (plusSecs now v) m"
  have n: "\<not> (\<exists>e \<in> set (cols s (col q)). oid e \<noteq> oid m \<and> ack e = Some a)"
    using assms(4) by blast
  have u: "update_first (\<lambda>d. d = m) (\<lambda>d. ?msg) (cols s (col q)) = pre @ ?msg # post"
    unfolding assms(2) by (rule update_first_at [OF assms(3)])
  have a: "ack ?msg = Some a" by (simp add: claim_update_def)
  show ?thesis
    unfolding claim_def findOneAndUpdate_def using n by (simp add: assms(1) Let_def u a)
qed

lemma moveToDLQ_ok:
  assumes "deadQueue q = Some dq"
    and "\<forall>e \<in> set (cols s (col dq)). oid e \<noteq> oid msg"
    and "\<forall>e \<in> set (cols s (col dq)). ack e \<noteq> ack msg"
  shows "moveToDLQ q msg now s =
     (Inr (), s\<lparr>cols := (cols s)(col dq := cols s (col dq) @ [msg],
          col q := updateOne_deleted (oid msg) now (((cols s)(col dq := cols s (col dq) @ [msg])) (col q)))\<rparr>)"
  using assms by (auto simp: moveToDLQ_def insertOne_def Let_def)

lemma moveToDLQ_InlD:
  assumes "moveToDLQ q msg now s = (Inl e, s')"
  shows "s' = s"
  using assms
  by (auto simp: moveToDLQ_def Let_def split: option.splits if_splits sum.splits)

lemma get_cases [consumes 0, case_names error empty return move_failed recurse]:
  fixes q vis toks now s
  defines "v \<equiv> (case vis of None \<Rightarrow> visibility q | Some v \<Rightarrow> v)"
  obtains
    e where "claim q v (toks 0) now s = Inl e"
      "get q vis toks now s = (Inl e, s)" "get_recursions q vis toks now s = 0"
  | c where "claim q v (toks 0) now s = Inr (None, c)"
      "get q vis toks now s = (Inr None, s)" "get_recursions q vis toks now s = 0"
  | msg c where "claim q v (toks 0) now s = Inr (Some msg, c)"
      "deadQueue q = None \<or> tries msg \<le> maxRetries q"
      "get q vis toks now s = (Inr (Some (to_job msg)), s\<lparr>cols := (cols s)(col q := c)\<rparr>)"
      "get_recursions q vis toks now s = 0"
  | msg c e dq where "claim q v (toks 0) now s = Inr (Some msg, c)"
      "deadQueue q = Some dq" "maxRetries q < tries msg"
      "moveToDLQ q msg now (s\<lparr>cols := (cols s)(col q := c)\<rparr>) = (Inl e, s\<lparr>cols := (cols s)(col q := c)\<rparr>)"
      "get q vis toks now s = (Inl e, s\<lparr>cols := (cols s)(col q := c)\<rparr>)"
      "get_recursions q vis toks now s = 0"
  | msg c s2 dq where "claim q v (toks 0) now s = Inr (Some msg, c)"
      "deadQueue q = Some dq" "maxRetries q < tries msg"
      "moveToDLQ q msg now (s\<lparr>cols := (cols s)(col q := c)\<rparr>) = (Inr (), s2)"
      "get q vis toks now s = get q (Some v) (\<lambda>n. toks (Suc n)) now s2"
      "get_recursions q vis toks now s = Suc (get_recursions q (Some v) (\<lambda>n. toks (Suc n)) now s2)"
proof (cases "claim q v (toks 0) now s")
  case (Inl e)
  have "get q vis toks now s = (Inl e, s)"
    using Inl by (subst get.simps) (simp add: v_def)
  moreover have "get_recursions q vis toks now s = 0"
    using Inl by (subst get_recursions.simps) (simp add: v_def)
  ultimately have "get q vis toks now s = (Inl e, s)" "get_recursions q vis toks now s = 0"
    by blast+
  with Inl show ?thesis by (rule that(1))
next
  case (Inr x)
  obtain mo c where x: "x = (mo, c)" by (cases x)
  show ?thesis
  proof (cases mo)
    case None
    note cl = Inr [unfolded x None]
    have "get q vis toks now s = (Inr None, s)"
      using cl by (subst get.simps) (simp add: v_def)
    moreover have "get_recursions q vis toks now s = 0"
      using cl by (subst get_recursions.simps) (simp add: v_def)
    ultimately have "get q vis toks now s = (Inr None, s)" "get_recursions q vis toks now s = 0"
      by blast+
    with cl show ?thesis by (rule that(2))
  next
    case (Some msg)
    note cl = Inr [unfolded x Some]
    let ?s1 = "s\<lparr>cols := (cols s)(col q := c)\<rparr>"
    show ?thesis
    proof (cases "deadQueue q \<noteq> None \<and> maxRetries q < tries msg")
      case False
      then have np: "deadQueue q = None \<or> tries msg \<le> maxRetries q" by auto
      have "get q vis toks now s = (Inr (Some (to_job msg)), ?s1)"
        using cl False by (subst get.simps) (auto simp: v_def Let_def)
      moreover have "get_recursions q vis toks now s = 0"
        using cl False by (subst get_recursions.simps) (auto simp: v_def Let_def)
      ultimately have "get q vis toks now s = (Inr (Some (to_job msg)), ?s1)"
        "get_recursions q vis toks now s = 0" by blast+
      with cl np show ?thesis by (rule that(3))
    next
      case True
      then obtain dq where dq: "deadQueue q = Some dq" and p: "maxRetries q < tries msg" by auto
      obtain r s2 where mv: "moveToDLQ q msg now ?s1 = (r, s2)" by (cases "moveToDLQ q msg now ?s1")
      show ?thesis
      proof (cases r)
        case (Inl e)
        with mv have s2: "s2 = ?s1" using moveToDLQ_InlD by blast
        have "get q vis toks now s = (Inl e, ?s1)"
          using cl True mv Inl s2 by (subst get.simps) (auto simp: v_def Let_def)
        moreover have "get_recursions q vis toks now s = 0"
          using cl True mv Inl s2 by (subst get_recursions.simps) (auto simp: v_def Let_def)
        ultimately have "get q vis toks now s = (Inl e, ?s1)" "get_recursions q vis toks now s = 0"
          by blast+
        with cl dq p mv [unfolded Inl s2] show ?thesis by (rule that(4))
      next
        case (Inr u)
        have "get q vis toks now s = get q (Some v) (\<lambda>n. toks (Suc n)) now s2"
          using cl True mv Inr by (subst get.simps) (auto simp: v_def Let_def)
        moreover
        have "get_recursions q vis toks now s = Suc (get_recursions q (Some v) (\<lambda>n. toks (Suc n)) now s2)"
          using cl True mv Inr by (subst get_recursions.simps) (auto simp: v_def Let_def)
        moreover from mv Inr have "moveToDLQ q msg now ?s1 = (Inr (), s2)" by simp
        ultimately show ?thesis using cl dq p that(5) by blast
      qed
    qed
  qed
qed

subsection \<open>The first claim of a new record\<close>

lemma claim_single:
  assumes "cols s (col q) = [d]" and "claimable now d"
  shows "claim q v a now s =
     Inr (Some (claim_update a (plusSecs now v) d), [claim_update a (plusSecs now v) d])"
proof -
  have "first_by_id (filter (claimable now) (cols s (col q))) = Some d"
    using assms by simp
  moreover have "cols s (col q) = [] @ d # []" using assms by simp
  moreover have "d \<notin> set []" by simp
  moreover have "\<forall>e \<in> set (cols s (col q)). oid e \<noteq> oid d \<longrightarrow> ack e \<noteq> Some a"
    using assms by simp
  ultimately show ?thesis
    using claim_found [of now s q d "[]" "[]" a v] by simp
qed

lemma add_get_fresh:
  assumes p: "\<not> isArray p" and np: "deadQueue q = None \<or> 1 \<le> maxRetries q"
    and e: "cols s (col q) = []"
    and t: "t0 + (case dly of None \<Rightarrow> delay q | Some d \<Rightarrow> d) * 1000 \<le> now"
  shows "get q vis toks now (snd (add q p dly t0 s)) =
     (Inr (Some \<lparr>job_id = next_oid s, job_ack = Some (toks 0), job_payload = p, job_tries = 1\<rparr>),
      s\<lparr>cols := (cols s)(col q :=
           [\<lparr>oid = next_oid s, payload = p,
             visible = now + (case vis of None \<Rightarrow> visibility q | Some v \<Rightarrow> v) * 1000,
             tries = 1, ack = Some (toks 0), deleted = None\<rparr>]),
        next_oid := next_oid s + 1\<rparr>)"
proof -
  let ?v = "case vis of None \<Rightarrow> visibility q | Some v \<Rightarrow> v"
  let ?d = "\<lparr>oid = next_oid s, payload = p,
      visible = t0 + (case dly of None \<Rightarrow> delay q | Some d \<Rightarrow> d) * 1000,
      tries = 0, ack = None, deleted = None\<rparr>"
  let ?s1 = "snd (add q p dly t0 s)"
  have s1: "?s1 = s\<lparr>cols := (cols s)(col q := [?d]), next_oid := next_oid s + 1\<rparr>"
    by (simp add: add_single [OF p] e)
  have c: "cols ?s1 (col q) = [?d]" by (simp add: s1)
  have "claimable now ?d" using t by (simp add: claimable_def)
  from claim_single [OF c this]
  have cl: "claim q ?v (toks 0) now ?s1 =
     Inr (Some (claim_update (toks 0) (plusSecs now ?v) ?d), [claim_update (toks 0) (plusSecs now ?v) ?d])" .
  show ?thesis
  proof (cases q vis toks now ?s1 rule: get_cases)
    case (return msg c)
    with cl show ?thesis
      by (auto simp: s1 to_job_def claim_update_def plusSecs_def)
  next
    case (move_failed msg c e dq)
    with cl np show ?thesis by (auto simp: claim_update_def)
  next
    case (recurse msg c s2 dq)
    with cl np show ?thesis by (auto simp: claim_update_def)
  qed (use cl in simp_all)
qed

text \<open>
  Claim C5, as amended. For every payload that is not an array, \<open>add(payload)\<close> on a
  queue whose collection is empty, with no dead-letter queue or with \<open>maxRetries \<ge> 1\<close>,
  followed by a \<open>get()\<close> made when the record is visible (the delay of the \<open>add\<close> has
  elapsed; at once when it is 0), returns the record with the payload unchanged and
  \<open>tries = 1\<close>.
\<close>

theorem add_get_roundtrip:
  assumes "\<not> isArray p" and "deadQueue q = None \<or> 1 \<le> maxRetries q"
    and "cols s (col q) = []"
    and "t0 + (case dly of None \<Rightarrow> delay q | Some d \<Rightarrow> d) * 1000 \<le> now"
  shows "fst (get q vis toks now (snd (add q p dly t0 s))) =
     Inr (Some \<lparr>job_id = next_oid s, job_ack = Some (toks 0), job_payload = p, job_tries = 1\<rparr>)"
  by (simp add: add_get_fresh [OF assms])

theorem add_get_roundtrip_witness:
  "fst (get Q1 None toks0 0 (snd (add Q1 (JObj [(''type'', JStr ''email'')]) None 0 empty_db))) =
     Inr (Some \<lparr>job_id = 0, job_ack = Some ''a'', job_payload = JObj [(''type'', JStr ''email'')],
                job_tries = 1\<rparr>)"
proof -
  have 1: "\<not> isArray (JObj [(''type'', JStr ''email'')])" by simp
  have 2: "deadQueue Q1 = None \<or> 1 \<le> maxRetries Q1" by (simp add: Q1_def)
  have 3: "cols empty_db (col Q1) = []" by (simp add: empty_db_def)
  have 4: "0 + (case None of None \<Rightarrow> delay Q1 | Some d \<Rightarrow> d) * 1000 \<le> 0" by (simp add: Q1_def)
  from add_get_roundtrip [OF 1 2 3 4, of None toks0] show ?thesis
    by (simp add: empty_db_def toks0_def)
qed

text \<open>
  The claim as stated fails on an array, which \<open>add\<close> takes for a batch (the record
  returned carries the first element), and on a queue with a default delay, where the
  record is not visible yet.
\<close>

theorem add_get_roundtrip_counterexample:
  "fst (get Q1 None toks0 0 (snd (add Q1 (JArr [JNum 1, JNum 2]) None 0 empty_db))) =
     Inr (Some \<lparr>job_id = 0, job_ack = Some ''a'', job_payload = JNum 1, job_tries = 1\<rparr>)
   \<and> fst (get (Queue ''jobs'' 30 5 None 5 False) None toks0 0
         (snd (add (Queue ''jobs'' 30 5 None 5 False) (JStr ''job1'') None 0 empty_db))) = Inr None"
  by (simp add: get.simps Q1_def toks0_def empty_db_def add_def insertMany_def claim_def
      findOneAndUpdate_def claimable_def claim_update_def plusSecs_def to_job_def Let_def)

subsection \<open>What a call of \<open>get\<close> moves to the dead-letter queue\<close>

lemma moveToDLQ_distinct_cols:
  assumes c: "claim q v a now s = Inr (Some msg, c)"
    and m: "moveToDLQ q msg now (s\<lparr>cols := (cols s)(col q := c)\<rparr>) = (Inr u, s2)"
    and dq: "deadQueue q = Some dq"
  shows "col dq \<noteq> col q"
proof
  assume e: "col dq = col q"
  from moveToDLQ_InrD(1) [OF m dq] e have "oid msg \<notin> oid ` set c" by simp
  moreover have "oid ` set c = oid ` set (cols s (col q))"
    using claim_oids(1) [OF c] by (metis set_map)
  ultimately show False using claim_oids(2) [OF c] by simp
qed

lemma get_recursions_no_dlq:
  assumes "deadQueue q = None"
  shows "get_recursions q vis toks now s = 0"
  using assms by (cases q vis toks now s rule: get_cases) simp_all

lemma get_no_dlq_cols:
  assumes "deadQueue q = None" and "n \<noteq> col q"
  shows "cols (snd (get q vis toks now s)) n = cols s n"
  using assms by (cases q vis toks now s rule: get_cases) simp_all

lemma get_moved:
  assumes dq: "deadQueue q = Some dq" and ne: "col dq \<noteq> col q"
  shows "\<exists>moved. cols (snd (get q vis toks now s)) (col dq) = cols s (col dq) @ moved
           \<and> length moved = get_recursions q vis toks now s
           \<and> (\<forall>m \<in> set moved. maxRetries q < tries m)"
proof (induction "card (pending_ids q s)" arbitrary: s vis toks rule: less_induct)
  case less
  show ?case
  proof (cases q vis toks now s rule: get_cases)
    case (error e)
    then show ?thesis by simp
  next
    case (empty c)
    then show ?thesis by simp
  next
    case (return msg c)
    then show ?thesis using ne by simp
  next
    case (move_failed msg c e dq')
    then show ?thesis using ne by simp
  next
    case (recurse msg c s2 dq')
    let ?v = "case vis of None \<Rightarrow> visibility q | Some v \<Rightarrow> v"
    let ?toks = "\<lambda>n. toks (Suc n)"
    have "card (pending_ids q s2) < card (pending_ids q s)"
      using get_step_decreases [OF recurse(1) recurse(4)] dq by simp
    from less [OF this, of "Some ?v" ?toks]
    obtain moved where mv: "cols (snd (get q (Some ?v) ?toks now s2)) (col dq) = cols s2 (col dq) @ moved"
      "length moved = get_recursions q (Some ?v) ?toks now s2"
      "\<forall>m \<in> set moved. maxRetries q < tries m"
      by blast
    have "cols s2 (col dq) = cols s (col dq) @ [msg]"
      using moveToDLQ_InrD(3) [OF recurse(4) dq] ne by simp
    with mv recurse(3,5,6) have
      "cols (snd (get q vis toks now s)) (col dq) = cols s (col dq) @ (msg # moved)
       \<and> length (msg # moved) = get_recursions q vis toks now s
       \<and> (\<forall>m \<in> set (msg # moved). maxRetries q < tries m)"
      by simp
    then show ?thesis by blast
  qed
qed

lemma get_returned_tries:
  assumes "fst (get q vis toks now s) = Inr (Some j)"
  shows "deadQueue q = None \<or> job_tries j \<le> maxRetries q"
  using assms
proof (induction "card (pending_ids q s)" arbitrary: s vis toks rule: less_induct)
  case less
  show ?case
  proof (cases q vis toks now s rule: get_cases)
    case (return msg c)
    with less.prems show ?thesis by (auto simp: to_job_def)
  next
    case (recurse msg c s2 dq')
    let ?v = "case vis of None \<Rightarrow> visibility q | Some v \<Rightarrow> v"
    have "card (pending_ids q s2) < card (pending_ids q s)"
      using get_step_decreases [OF recurse(1) recurse(4)] recurse(2) by simp
    from less.hyps [OF this, of "Some ?v" "\<lambda>n. toks (Suc n)"] less.prems recurse(5)
    show ?thesis by simp
  qed (use less.prems in simp_all)
qed

subsection \<open>The scenario of the specification\<close>

lemma add_get_poisoned:
  fixes vis :: "int option" and toks :: "nat \<Rightarrow> string"
  assumes dq: "deadQueue q = Some dq" and ne: "col dq \<noteq> col q" and mr: "maxRetries q < 1"
    and p: "\<not> isArray p" and e: "cols s (col q) = []" and ed: "cols s (col dq) = []"
    and t: "t0 + (case dly of None \<Rightarrow> delay q | Some d \<Rightarrow> d) * 1000 \<le> now"
  defines "msg \<equiv> \<lparr>oid = next_oid s, payload = p,
      visible = now + (case vis of None \<Rightarrow> visibility q | Some v \<Rightarrow> v) * 1000,
      tries = 1, ack = Some (toks 0), deleted = None\<rparr>"
  shows "fst (get q vis toks now (snd (add q p dly t0 s))) = Inr None"
    and "cols (snd (get q vis toks now (snd (add q p dly t0 s)))) (col q) = [msg\<lparr>deleted := Some now\<rparr>]"
    and "cols (snd (get q vis toks now (snd (add q p dly t0 s)))) (col dq) = [msg]"
proof -
  let ?v = "case vis of None \<Rightarrow> visibility q | Some v \<Rightarrow> v"
  let ?d = "\<lparr>oid = next_oid s, payload = p,
      visible = t0 + (case dly of None \<Rightarrow> delay q | Some d \<Rightarrow> d) * 1000,
      tries = 0, ack = None, deleted = None\<rparr>"
  let ?s1 = "snd (add q p dly t0 s)"
  have s1: "?s1 = s\<lparr>cols := (cols s)(col q := [?d]), next_oid := next_oid s + 1\<rparr>"
    by (simp add: add_single [OF p] e)
  have c: "cols ?s1 (col q) = [?d]" by (simp add: s1)
  have "claimable now ?d" using t by (simp add: claimable_def)
  from claim_single [OF c this]
  have "claim q ?v (toks 0) now ?s1 =
     Inr (Some (claim_update (toks 0) (plusSecs now ?v) ?d), [claim_update (toks 0) (plusSecs now ?v) ?d])" .
  moreover have m: "claim_update (toks 0) (plusSecs now ?v) ?d = msg"
    by (simp add: claim_update_def plusSecs_def msg_def)
  ultimately have cl: "claim q ?v (toks 0) now ?s1 = Inr (Some msg, [msg])" by simp
  let ?s1' = "?s1\<lparr>cols := (cols ?s1)(col q := [msg])\<rparr>"
  let ?s2 = "?s1'\<lparr>cols := (cols ?s1')(col dq := cols ?s1' (col dq) @ [msg],
          col q := updateOne_deleted (oid msg) now (((cols ?s1')(col dq := cols ?s1' (col dq) @ [msg])) (col q)))\<rparr>"
  have d1: "cols ?s1' (col dq) = []" using ne ed by (simp add: s1)
  have f1: "\<forall>e \<in> set (cols ?s1' (col dq)). oid e \<noteq> oid msg"
    unfolding d1 by simp
  have f2: "\<forall>e \<in> set (cols ?s1' (col dq)). ack e \<noteq> ack msg"
    unfolding d1 by simp
  have mv: "moveToDLQ q msg now ?s1' = (Inr (), ?s2)"
    by (rule moveToDLQ_ok [OF dq f1 f2])
  have q2: "cols ?s2 (col q) = [msg\<lparr>deleted := Some now\<rparr>]"
    using ne by (simp add: updateOne_deleted_def)
  have dq2: "cols ?s2 (col dq) = [msg]"
    using ne d1 by simp
  have idle: "\<forall>d \<in> set (cols ?s2 (col q)). \<not> claimable now d"
    unfolding q2 by (simp add: claimable_def)
  have g: "get q vis toks now ?s1 = (Inr None, ?s2)"
  proof (cases q vis toks now ?s1 rule: get_cases)
    case (return msg' c)
    with cl dq mr show ?thesis by (auto simp: msg_def)
  next
    case (move_failed msg' c e dq')
    with cl mv show ?thesis by auto
  next
    case (recurse msg' c s2 dq')
    with cl mv have "s2 = ?s2" by auto
    with recurse(5) get_idle [OF idle] show ?thesis by simp
  qed (use cl in simp_all)
  show "fst (get q vis toks now ?s1) = Inr None" by (simp add: g)
  show "cols (snd (get q vis toks now ?s1)) (col q) = [msg\<lparr>deleted := Some now\<rparr>]"
    unfolding g snd_conv by (rule q2)
  show "cols (snd (get q vis toks now ?s1)) (col dq) = [msg]"
    unfolding g snd_conv by (rule dq2)
qed

text \<open>
  Claim C1, as amended. Take a queue with a dead-letter queue that lives in another
  collection, both empty, and \<open>add\<close> one payload. The first \<open>get()\<close> made when the
  record is visible claims it, which makes \<open>tries = 1\<close>. With \<open>maxRetries = 0\<close> (any
  \<open>maxRetries < 1\<close>) that exceeds the budget: the record is moved to the dead-letter
  queue at once, with \<open>tries = 1\<close>, marked deleted in the source, and \<open>get()\<close> returns
  the empty result. With \<open>maxRetries \<ge> 1\<close> the call returns the job with \<open>tries = 1\<close>
  and the dead-letter queue stays empty. In any state, every document a call of \<open>get()\<close>
  appends to the dead-letter queue has \<open>tries\<close> (after the increment of its claim)
  above \<open>maxRetries\<close>, and a job that \<open>get()\<close> returns has \<open>tries\<close> at most \<open>maxRetries\<close>.
\<close>

theorem first_get_dead_letters:
  assumes "deadQueue q = Some dq" and "col dq \<noteq> col q"
  shows "(\<not> isArray p \<and> cols s (col q) = [] \<and> cols s (col dq) = []
          \<and> t0 + (case dly of None \<Rightarrow> delay q | Some d \<Rightarrow> d) * 1000 \<le> now \<longrightarrow>
          (if maxRetries q < 1
           then fst (get q vis toks now (snd (add q p dly t0 s))) = Inr None
             \<and> cols (snd (get q vis toks now (snd (add q p dly t0 s)))) (col q) =
                 [\<lparr>oid = next_oid s, payload = p,
                   visible = now + (case vis of None \<Rightarrow> visibility q | Some v \<Rightarrow> v) * 1000,
                   tries = 1, ack = Some (toks 0), deleted = Some now\<rparr>]
             \<and> cols (snd (get q vis toks now (snd (add q p dly t0 s)))) (col dq) =
                 [\<lparr>oid = next_oid s, payload = p,
                   visible = now + (case vis of None \<Rightarrow> visibility q | Some v \<Rightarrow> v) * 1000,
                   tries = 1, ack = Some (toks 0), deleted = None\<rparr>]
           else fst (get q vis toks now (snd (add q p dly t0 s))) =
                  Inr (Some \<lparr>job_id = next_oid s, job_ack = Some (toks 0), job_payload = p,
                             job_tries = 1\<rparr>)
             \<and> cols (snd (get q vis toks now (snd (add q p dly t0 s)))) (col dq) = []))
    \<and> (\<exists>moved. cols (snd (get q vis toks now s)) (col dq) = cols s (col dq) @ moved
          \<and> (\<forall>m \<in> set moved. maxRetries q < tries m))
    \<and> (fst (get q vis toks now s) = Inr (Some j) \<longrightarrow> job_tries j \<le> maxRetries q)"
proof (intro conjI impI)
  assume a: "\<not> isArray p \<and> cols s (col q) = [] \<and> cols s (col dq) = []
          \<and> t0 + (case dly of None \<Rightarrow> delay q | Some d \<Rightarrow> d) * 1000 \<le> now"
  show "if maxRetries q < 1
           then fst (get q vis toks now (snd (add q p dly t0 s))) = Inr None
             \<and> cols (snd (get q vis toks now (snd (add q p dly t0 s)))) (col q) =
                 [\<lparr>oid = next_oid s, payload = p,
                   visible = now + (case vis of None \<Rightarrow> visibility q | Some v \<Rightarrow> v) * 1000,
                   tries = 1, ack = Some (toks 0), deleted = Some now\<rparr>]
             \<and> cols (snd (get q vis toks now (snd (add q p dly t0 s)))) (col dq) =
                 [\<lparr>oid = next_oid s, payload = p,
                   visible = now + (case vis of None \<Rightarrow> visibility q | Some v \<Rightarrow> v) * 1000,
                   tries = 1, ack = Some (toks 0), deleted = None\<rparr>]
           else fst (get q vis toks now (snd (add q p dly t0 s))) =
                  Inr (Some \<lparr>job_id = next_oid s, job_ack = Some (toks 0), job_payload = p,
                             job_tries = 1\<rparr>)
             \<and> cols (snd (get q vis toks now (snd (add q p dly t0 s)))) (col dq) = []"
  proof (cases "maxRetries q < 1")
    case True
    from a have p: "\<not> isArray p" and e: "cols s (col q) = []" and ed: "cols s (col dq) = []"
      and t: "t0 + (case dly of None \<Rightarrow> delay q | Some d \<Rightarrow> d) * 1000 \<le> now" by simp_all
    from add_get_poisoned [OF assms True p e ed t, where vis = vis and toks = toks] True
    show ?thesis by simp
  next
    case False
    from a have p: "\<not> isArray p" and e: "cols s (col q) = []" and ed: "cols s (col dq) = []"
      and t: "t0 + (case dly of None \<Rightarrow> delay q | Some d \<Rightarrow> d) * 1000 \<le> now" by simp_all
    from False have np: "deadQueue q = None \<or> 1 \<le> maxRetries q" by simp
    from add_get_fresh [OF p np e t, where vis = vis and toks = toks] False assms(2) ed
    show ?thesis by simp
  qed
next
  from get_moved [OF assms, of vis toks now s]
  show "\<exists>moved. cols (snd (get q vis toks now s)) (col dq) = cols s (col dq) @ moved
          \<and> (\<forall>m \<in> set moved. maxRetries q < tries m)"
    by blast
next
  assume "fst (get q vis toks now s) = Inr (Some j)"
  from get_returned_tries [OF this] assms(1)
  show "job_tries j \<le> maxRetries q" by simp
qed

text \<open>
  The scenario as the specification has it: the first \<open>get()\<close> of \<open>Q0\<close> returns nothing,
  and the job is in the collection of \<open>D0\<close> with \<open>tries = 1\<close>.
\<close>

theorem first_get_counterexample:
  "fst (get Q0 None toks0 0 (snd (add Q0 (JStr ''job1'') None 0 empty_db))) = Inr None
   \<and> cols (snd (get Q0 None toks0 0 (snd (add Q0 (JStr ''job1'') None 0 empty_db)))) ''dead'' =
       [\<lparr>oid = 0, payload = JStr ''job1'', visible = 1000, tries = 1, ack = Some ''a'', deleted = None\<rparr>]"
  by (simp add: get.simps Q0_def D0_def toks0_def empty_db_def add_def insertMany_def claim_def
      findOneAndUpdate_def claimable_def claim_update_def plusSecs_def moveToDLQ_def insertOne_def
      updateOne_deleted_def Let_def)

theorem first_get_dead_letters_witness:
  "fst (get Q0 None toks0 5 (snd (add Q0 (JStr ''job1'') None 0 empty_db))) = Inr None
   \<and> cols (snd (get Q0 None toks0 5 (snd (add Q0 (JStr ''job1'') None 0 empty_db)))) (col D0) =
       [\<lparr>oid = 0, payload = JStr ''job1'', visible = 1005, tries = 1, ack = Some ''a'', deleted = None\<rparr>]"
proof -
  have 1: "deadQueue Q0 = Some D0" by (simp add: Q0_def)
  have 2: "col D0 \<noteq> col Q0" by (simp add: Q0_def D0_def)
  have 3: "\<not> isArray (JStr ''job1'') \<and> cols empty_db (col Q0) = [] \<and> cols empty_db (col D0) = []
          \<and> 0 + (case None of None \<Rightarrow> delay Q0 | Some d \<Rightarrow> d) * 1000 \<le> 5"
    by (simp add: Q0_def empty_db_def)
  have 4: "maxRetries Q0 < 1" by (simp add: Q0_def)
  from first_get_dead_letters [OF 1 2, where p = "JStr ''job1''" and s = empty_db and ?t0.0 = 0
      and dly = None and now = 5 and vis = None and toks = toks0] 3 4
  show ?thesis
    by (simp add: empty_db_def toks0_def Q0_def)
qed

subsection \<open>The recursion of \<open>get\<close> is bounded\<close>

lemma updateOne_deleted_claimable:
  "d \<in> set (updateOne_deleted i t c) \<Longrightarrow> claimable now d \<Longrightarrow> d \<in> set c"
  unfolding updateOne_deleted_def
  by (induction c) (auto simp: claimable_def split: if_splits)

lemma claimable_pending_le_size: "card (claimable_pending q dq now s) \<le> size_op q now s"
proof -
  let ?A = "{d \<in> set (cols s (col q)). claimable now d}"
  have "card (claimable_pending q dq now s) \<le> card (oid ` ?A)"
    unfolding claimable_pending_def by (rule card_mono) auto
  also have "\<dots> \<le> card ?A" by (rule card_image_le) simp
  also have "?A = set (filter (claimable now) (cols s (col q)))" by auto
  also have "card \<dots> \<le> size_op q now s"
    unfolding size_op_def by (rule card_length)
  finally show ?thesis .
qed

lemma claimable_pending_step:
  assumes cl: "claim q v a now s = Inr (Some msg, c)"
    and mv: "moveToDLQ q msg now (s\<lparr>cols := (cols s)(col q := c)\<rparr>) = (Inr u, s2)"
    and dq: "deadQueue q = Some dq"
  shows "card (claimable_pending q dq now s2) < card (claimable_pending q dq now s)"
proof -
  have ne: "col dq \<noteq> col q" by (rule moveToDLQ_distinct_cols [OF cl mv dq])
  from cl obtain pre m post where c0: "cols s (col q) = pre @ m # post" and m: "claimable now m"
    and msg: "msg = claim_update a (plusSecs now v) m" and c: "c = pre @ msg # post"
    by (rule claim_split)
  have om: "oid msg = oid m" by (simp add: msg claim_update_def)
  note mvd = moveToDLQ_InrD [OF mv dq]
  have d2: "cols s2 (col dq) = cols s (col dq) @ [msg]"
    using ne by (simp add: mvd(3))
  have q2: "cols s2 (col q) = updateOne_deleted (oid msg) now c"
    using ne by (simp add: mvd(3))
  have notin: "oid msg \<notin> oid ` set (cols s (col dq))"
    using mvd(1) ne by simp
  have "claimable_pending q dq now s2 \<subseteq> claimable_pending q dq now s - {oid msg}"
  proof
    fix i assume "i \<in> claimable_pending q dq now s2"
    then obtain d where d: "d \<in> set (cols s2 (col q))" "claimable now d" "i = oid d"
      and nd: "oid d \<notin> oid ` set (cols s2 (col dq))"
      by (auto simp: claimable_pending_def)
    from nd d2 have "oid d \<noteq> oid msg" "oid d \<notin> oid ` set (cols s (col dq))" by auto
    moreover from d(1,2) q2 have "d \<in> set c"
      using updateOne_deleted_claimable by simp
    ultimately have "d \<in> set (cols s (col q))" using c c0 by auto
    with d \<open>oid d \<noteq> oid msg\<close> \<open>oid d \<notin> oid ` set (cols s (col dq))\<close>
    show "i \<in> claimable_pending q dq now s - {oid msg}"
      by (auto simp: claimable_pending_def)
  qed
  moreover have "oid msg \<in> claimable_pending q dq now s"
    using c0 m om notin by (force simp: claimable_pending_def)
  moreover have "finite (claimable_pending q dq now s)"
    by (simp add: claimable_pending_def)
  ultimately show ?thesis
    by (metis card_Diff1_less card_mono finite_Diff le_less_trans)
qed

lemma get_recursions_le_pending:
  assumes dq: "deadQueue q = Some dq"
  shows "get_recursions q vis toks now s \<le> card (claimable_pending q dq now s)"
proof (induction "card (pending_ids q s)" arbitrary: s vis toks rule: less_induct)
  case less
  show ?case
  proof (cases q vis toks now s rule: get_cases)
    case (recurse msg c s2 dq')
    let ?v = "case vis of None \<Rightarrow> visibility q | Some v \<Rightarrow> v"
    have "card (pending_ids q s2) < card (pending_ids q s)"
      using get_step_decreases [OF recurse(1) recurse(4)] dq by simp
    from less [OF this, of "Some ?v" "\<lambda>n. toks (Suc n)"]
    have "get_recursions q (Some ?v) (\<lambda>n. toks (Suc n)) now s2 \<le> card (claimable_pending q dq now s2)" .
    moreover have "card (claimable_pending q dq now s2) < card (claimable_pending q dq now s)"
      by (rule claimable_pending_step [OF recurse(1) recurse(4) dq])
    ultimately show ?thesis using recurse(6) by simp
  qed simp_all
qed

lemma get_recursions_le_size: "get_recursions q vis toks now s \<le> size_op q now s"
proof (cases "deadQueue q")
  case None
  then show ?thesis by (simp add: get_recursions_no_dlq)
next
  case (Some dq)
  from get_recursions_le_pending [OF this] claimable_pending_le_size
  show ?thesis by (rule le_trans)
qed

lemma get_moved_length:
  assumes "deadQueue q = Some dq" and "col dq \<noteq> col q"
  shows "length (cols (snd (get q vis toks now s)) (col dq)) =
     length (cols s (col dq)) + get_recursions q vis toks now s"
  using get_moved [OF assms, of vis toks now s] by auto

subsection \<open>The copy in the dead-letter queue\<close>






subsection \<open>The life of the \<open>ack\<close> field\<close>

lemma add_new_docs:
  assumes "add q p dly now s = (Inr r, s')"
  shows "\<exists>new. cols s' (col q) = cols s (col q) @ new
           \<and> (\<forall>d \<in> set new. ack d = None \<and> deleted d = None \<and> tries d = 0)"
proof -
  let ?vis = "if (case dly of None \<Rightarrow> delay q | Some d \<Rightarrow> d) \<noteq> 0
    then plusSecs now (case dly of None \<Rightarrow> delay q | Some d \<Rightarrow> d) else now"
  have n: "\<forall>d \<in> set (new_docs k v ps). ack d = None \<and> deleted d = None \<and> tries d = 0" for k v ps
    by (induction ps arbitrary: k) simp_all
  from assms have "cols s' (col q) = cols s (col q) @ new_docs (next_oid s) ?vis (arr p)"
    by (auto simp: add_def insertMany_def Let_def split: if_splits)
  with n show ?thesis by blast
qed

lemma get_returned_doc:
  assumes "fst (get q vis toks now s) = Inr (Some j)"
  shows "\<exists>d \<in> set (cols (snd (get q vis toks now s)) (col q)). to_job d = j \<and> ack d \<noteq> None"
  using assms
proof (induction "card (pending_ids q s)" arbitrary: s vis toks rule: less_induct)
  case less
  show ?case
  proof (cases q vis toks now s rule: get_cases)
    case (return msg c)
    from return(1) obtain pre m post where "msg = claim_update (toks 0)
        (plusSecs now (case vis of None \<Rightarrow> visibility q | Some v \<Rightarrow> v)) m" "c = pre @ msg # post"
      by (rule claim_split)
    then have "msg \<in> set c" "ack msg \<noteq> None" by (simp_all add: claim_update_def)
    with return(3) less.prems show ?thesis by auto
  next
    case (recurse msg c s2 dq')
    let ?v = "case vis of None \<Rightarrow> visibility q | Some v \<Rightarrow> v"
    have "card (pending_ids q s2) < card (pending_ids q s)"
      using get_step_decreases [OF recurse(1) recurse(4)] recurse(2) by simp
    from less.hyps [OF this, of "Some ?v" "\<lambda>n. toks (Suc n)"] less.prems recurse(5)
    show ?thesis by simp
  qed (use less.prems in simp_all)
qed

lemma ack_op_keeps_token:
  assumes "ack_op q a now s = (Inr i, s')"
  shows "\<exists>d \<in> set (cols s' (col q)). oid d = i \<and> ack d = Some a \<and> deleted d = Some now"
proof -
  from assms obtain pre d post where "outstanding a now d" "i = oid d"
    "s' = s\<lparr>cols := (cols s)(col q := pre @ d\<lparr>deleted := Some now\<rparr> # post)\<rparr>"
    by (rule ack_op_InrD)
  then show ?thesis by (auto simp: outstanding_def)
qed

subsection \<open>First in, first out\<close>

lemma insort_key_least: "\<forall>x \<in> set xs. f a \<le> f x \<Longrightarrow> insort_key f a xs = a # xs"
  by (cases xs) simp_all

lemma sort_key_least_first:
  fixes f :: "'a \<Rightarrow> nat"
  assumes "m \<in> set xs" and "\<forall>x \<in> set xs. f m \<le> f x" and "distinct (map f xs)"
  shows "sort_key f xs = m # sort_key f (remove1 m xs)"
  using assms
proof (induction xs)
  case Nil
  then show ?case by simp
next
  case (Cons x xs)
  show ?case
  proof (cases "m = x")
    case True
    have "\<forall>y \<in> set (sort_key f xs). f x \<le> f y"
      using Cons.prems(2) True by simp
    then show ?thesis
      using True by (simp add: insort_key_least)
  next
    case False
    with Cons.prems have m: "m \<in> set xs" and le: "\<forall>y \<in> set xs. f m \<le> f y"
      and d: "distinct (map f xs)" by simp_all
    from Cons.IH [OF m le d] have ih: "sort_key f xs = m # sort_key f (remove1 m xs)" .
    have "f x \<notin> f ` set xs" using Cons.prems(3) by simp
    with m have "f x \<noteq> f m" by force
    moreover have "f m \<le> f x" using Cons.prems(2) by simp
    ultimately have "\<not> f x \<le> f m" by simp
    then show ?thesis
      using False ih by simp
  qed
qed

lemma get_claims_least:
  assumes f: "first_by_id (filter (claimable now) (cols s (col q))) = Some m"
    and c: "cols s (col q) = pre @ m # post" and pre: "m \<notin> set pre"
    and tok: "\<forall>e \<in> set (cols s (col q)). ack e \<noteq> Some (toks 0)"
    and np: "deadQueue q = None \<or> tries m + 1 \<le> maxRetries q"
  shows "get q vis toks now s =
     (Inr (Some (to_job (claim_update (toks 0)
         (plusSecs now (case vis of None \<Rightarrow> visibility q | Some v \<Rightarrow> v)) m))),
      s\<lparr>cols := (cols s)(col q := pre @ claim_update (toks 0)
         (plusSecs now (case vis of None \<Rightarrow> visibility q | Some v \<Rightarrow> v)) m # post)\<rparr>)"
proof -
  let ?v = "case vis of None \<Rightarrow> visibility q | Some v \<Rightarrow> v"
  let ?msg = "claim_update (toks 0) (plusSecs now ?v) m"
  have "\<forall>e \<in> set (cols s (col q)). oid e \<noteq> oid m \<longrightarrow> ack e \<noteq> Some (toks 0)"
    using tok by blast
  from claim_found [OF f c pre this]
  have cl: "claim q ?v (toks 0) now s = Inr (Some ?msg, pre @ ?msg # post)" .
  have t: "tries ?msg = tries m + 1" by (simp add: claim_update_def)
  show ?thesis
  proof (cases q vis toks now s rule: get_cases)
    case (return msg' c')
    with cl show ?thesis by auto
  next
    case (move_failed msg' c' e dq')
    with cl np t show ?thesis by auto
  next
    case (recurse msg' c' s2 dq')
    with cl np t show ?thesis by auto
  qed (use cl in simp_all)
qed

lemma acknowledge_claimed:
  assumes c: "cols s (col q) = pre @ msg # post" and a: "ack msg = Some a"
    and d: "deleted msg = None"
    and o: "\<forall>e \<in> set pre \<union> set post. ack e \<noteq> Some a"
  shows "\<exists>msg'. cols (acknowledge q c0 (Inr (Some (to_job msg))) s) (col q) = pre @ msg' # post
            \<and> (msg' = msg
                \<or> (\<exists>ta. call_ack c0 = Some ta \<and> ta < visible msg \<and> msg' = msg\<lparr>deleted := Some ta\<rparr>))
            \<and> (\<forall>ta. call_ack c0 = Some ta \<and> ta < visible msg \<longrightarrow> msg' = msg\<lparr>deleted := Some ta\<rparr>)"
proof (cases "call_ack c0")
  case None
  then show ?thesis using c by (simp add: acknowledge_def)
next
  case (Some ta)
  have ak: "acknowledge q c0 (Inr (Some (to_job msg))) s = snd (ack_op q a ta s)"
    by (simp add: acknowledge_def Some to_job_def a)
  show ?thesis
  proof (cases "ta < visible msg")
    case True
    have "outstanding a ta msg" using a d True by (simp add: outstanding_def)
    moreover have "\<forall>e \<in> set pre. \<not> outstanding a ta e" using o by (simp add: outstanding_def)
    ultimately have "ack_op q a ta s =
        (Inr (oid msg), s\<lparr>cols := (cols s)(col q := pre @ msg\<lparr>deleted := Some ta\<rparr> # post)\<rparr>)"
      using ack_op_found [OF c] by blast
    then show ?thesis using True Some by (simp add: ak)
  next
    case False
    have "\<forall>e \<in> set (cols s (col q)). \<not> outstanding a ta e"
      using o False by (auto simp: c outstanding_def)
    then have "ack_op q a ta s = (Inl (UnknownAck a), s)"
      by (rule ack_op_not_found)
    then show ?thesis using False Some c by (simp add: ak)
  qed
qed

lemma gets_fifo_gen:
  assumes np: "deadQueue q = None \<or> 1 \<le> maxRetries q"
  shows "distinct (map oid (cols s (col q))) \<Longrightarrow>
    \<forall>d \<in> set (cols s (col q)). fresh t0 d \<or> (\<forall>c \<in> set calls. \<not> claimable (call_time c) d) \<Longrightarrow>
    \<forall>c \<in> set calls. t0 \<le> call_time c \<Longrightarrow>
    undisturbed (visibility q) calls \<Longrightarrow>
    distinct (map (\<lambda>c. call_toks c 0) calls) \<Longrightarrow>
    \<forall>c \<in> set calls. \<forall>d \<in> set (cols s (col q)). ack d \<noteq> Some (call_toks c 0) \<Longrightarrow>
    length calls = length (filter (fresh t0) (cols s (col q))) \<Longrightarrow>
    fst (gets q calls s) =
      map2 (\<lambda>d c. Inr (Some \<lparr>job_id = oid d, job_ack = Some (call_toks c 0),
                                 job_payload = payload d, job_tries = 1\<rparr>))
        (sort_key oid (filter (fresh t0) (cols s (col q)))) calls"
proof (induction calls arbitrary: s)
  case Nil
  then show ?case by simp
next
  case (Cons c0 cs)
  let ?cq = "cols s (col q)"
  let ?t = "call_time c0"
  let ?toks = "call_toks c0"
  let ?F = "filter (fresh t0) ?cq"
  let ?f = "\<lambda>d c. Inr (Some \<lparr>job_id = oid d, job_ack = Some (call_toks c 0),
                                 job_payload = payload d, job_tries = 1\<rparr>) :: error + job option"
  have t0: "t0 \<le> ?t" using Cons.prems(3) by simp
  have eqf: "filter (claimable ?t) ?cq = ?F"
  proof (rule filter_cong [OF refl])
    fix d assume d: "d \<in> set ?cq"
    show "claimable ?t d = fresh t0 d"
    proof (cases "fresh t0 d")
      case True
      then show ?thesis using t0 by (simp add: fresh_def claimable_def)
    next
      case False
      with Cons.prems(2) d have "\<not> claimable ?t d" by auto
      with False show ?thesis by simp
    qed
  qed
  have "?F \<noteq> []" using Cons.prems(7) by auto
  then obtain m where fm: "first_by_id ?F = Some m"
    using first_by_id_None [of ?F] by (cases "first_by_id ?F") auto
  have mF: "m \<in> set ?F" by (rule first_by_id_mem [OF fm])
  then have mf: "fresh t0 m" and mc: "m \<in> set ?cq" by simp_all
  have least: "\<forall>x \<in> set ?F. oid m \<le> oid x" by (rule first_by_id_least [OF fm])
  from split_list_first [OF mc] obtain pre post where
    c: "?cq = pre @ m # post" and pre: "m \<notin> set pre" by blast
  let ?msg = "claim_update (?toks 0) (plusSecs ?t (visibility q)) m"
  let ?s1 = "s\<lparr>cols := (cols s)(col q := pre @ ?msg # post)\<rparr>"
  have tok: "\<forall>e \<in> set ?cq. ack e \<noteq> Some (?toks 0)" using Cons.prems(6) by simp
  have npm: "deadQueue q = None \<or> tries m + 1 \<le> maxRetries q"
    using np mf by (auto simp: fresh_def)
  have g: "get q None ?toks ?t s = (Inr (Some (to_job ?msg)), ?s1)"
    using get_claims_least [where toks = ?toks and vis = None, OF fm [folded eqf] c pre tok npm]
    by simp
  let ?s1' = "acknowledge q c0 (Inr (Some (to_job ?msg))) ?s1"
  have c1: "cols ?s1 (col q) = pre @ ?msg # post" by simp
  have am: "ack ?msg = Some (?toks 0)" by (simp add: claim_update_def)
  have dm: "deleted ?msg = None" using mf by (simp add: claim_update_def fresh_def)
  have vm: "visible ?msg = ?t + visibility q * 1000" by (simp add: claim_update_def plusSecs_def)
  have others: "\<forall>e \<in> set pre \<union> set post. ack e \<noteq> Some (?toks 0)"
    using tok c by auto
  from acknowledge_claimed [OF c1 am dm others, of c0]
  obtain msg' where c1': "cols ?s1' (col q) = pre @ msg' # post"
    and alt: "msg' = ?msg \<or> (\<exists>ta. call_ack c0 = Some ta \<and> ta < visible ?msg \<and> msg' = ?msg\<lparr>deleted := Some ta\<rparr>)"
    and acked: "\<forall>ta. call_ack c0 = Some ta \<and> ta < visible ?msg \<longrightarrow> msg' = ?msg\<lparr>deleted := Some ta\<rparr>"
    by blast
  have om: "oid msg' = oid m" using alt by (auto simp: claim_update_def)
  have am': "ack msg' = Some (?toks 0)" using alt by (auto simp: claim_update_def)
  have nf: "\<not> fresh t0 msg'" using alt by (auto simp: claim_update_def fresh_def)
  have nc: "\<forall>c \<in> set cs. \<not> claimable (call_time c) msg'"
  proof
    fix c assume cin: "c \<in> set cs"
    from Cons.prems(4) have
      "(case call_ack c0 of None \<Rightarrow> False | Some ta \<Rightarrow> ta < ?t + visibility q * 1000)
        \<or> (\<forall>c' \<in> set cs. call_time c' < ?t + visibility q * 1000)" by simp
    then show "\<not> claimable (call_time c) msg'"
    proof
      assume "case call_ack c0 of None \<Rightarrow> False | Some ta \<Rightarrow> ta < ?t + visibility q * 1000"
      then obtain ta where "call_ack c0 = Some ta" "ta < visible ?msg"
        by (auto simp: vm split: option.splits)
      with acked have "msg' = ?msg\<lparr>deleted := Some ta\<rparr>" by blast
      then show ?thesis by (simp add: claimable_def)
    next
      assume "\<forall>c' \<in> set cs. call_time c' < ?t + visibility q * 1000"
      with cin have "call_time c < visible ?msg" by (simp add: vm)
      with alt show ?thesis by (auto simp: claimable_def)
    qed
  qed
  have p1: "distinct (map oid (cols ?s1' (col q)))"
    using Cons.prems(1) by (simp add: c1' c om)
  have p2: "\<forall>d \<in> set (cols ?s1' (col q)). fresh t0 d \<or> (\<forall>c \<in> set cs. \<not> claimable (call_time c) d)"
    using Cons.prems(2) nc by (auto simp: c1' c)
  have p3: "\<forall>c \<in> set cs. t0 \<le> call_time c" using Cons.prems(3) by simp
  have p4: "undisturbed (visibility q) cs" using Cons.prems(4) by simp
  have p5: "distinct (map (\<lambda>c. call_toks c 0) cs)" using Cons.prems(5) by simp
  have p6: "\<forall>c \<in> set cs. \<forall>d \<in> set (cols ?s1' (col q)). ack d \<noteq> Some (call_toks c 0)"
  proof (intro ballI)
    fix c d assume cin: "c \<in> set cs" and d: "d \<in> set (cols ?s1' (col q))"
    from Cons.prems(5) have notin: "?toks 0 \<notin> (\<lambda>c. call_toks c 0) ` set cs" by simp
    from cin have "(\<lambda>c. call_toks c 0) c \<in> (\<lambda>c. call_toks c 0) ` set cs" by (rule imageI)
    then have "call_toks c 0 \<in> (\<lambda>c. call_toks c 0) ` set cs" by simp
    with notin have ne: "call_toks c 0 \<noteq> ?toks 0" by metis
    from d have "d = msg' \<or> d \<in> set ?cq" by (auto simp: c1' c)
    then show "ack d \<noteq> Some (call_toks c 0)"
    proof
      assume "d = msg'"
      then show ?thesis using am' ne by simp
    next
      assume "d \<in> set ?cq"
      then show ?thesis using Cons.prems(6) cin by simp
    qed
  qed
  have F: "?F = filter (fresh t0) pre @ m # filter (fresh t0) post"
    using mf by (simp add: c)
  have F': "filter (fresh t0) (cols ?s1' (col q)) = remove1 m ?F"
  proof -
    have "m \<notin> set (filter (fresh t0) pre)" using pre by simp
    then have "remove1 m (filter (fresh t0) pre @ m # filter (fresh t0) post) =
        filter (fresh t0) pre @ remove1 m (m # filter (fresh t0) post)"
      by (simp only: remove1_append if_False)
    then have "remove1 m ?F = filter (fresh t0) pre @ filter (fresh t0) post"
      unfolding F by simp
    then show ?thesis using nf by (simp add: c1')
  qed
  have p7: "length cs = length (filter (fresh t0) (cols ?s1' (col q)))"
    using Cons.prems(7) mF by (simp add: F' length_remove1)
  from Cons.IH [OF p1 p2 p3 p4 p5 p6 p7]
  have ih: "fst (gets q cs ?s1') = map2 ?f (sort_key oid (remove1 m ?F)) cs"
    by (simp only: F')
  have dF: "distinct (map oid ?F)"
    using Cons.prems(1) by (rule distinct_map_filter)
  have srt: "sort_key oid ?F = m # sort_key oid (remove1 m ?F)"
    by (rule sort_key_least_first [OF mF least dF])
  have "fst (gets q (c0 # cs) s) = Inr (Some (to_job ?msg)) # fst (gets q cs ?s1')"
    by (simp add: g split: prod.splits)
  moreover have "Inr (Some (to_job ?msg)) = ?f m c0"
    using mf by (simp add: to_job_def claim_update_def fresh_def)
  ultimately show ?case
    using ih by (simp only: srt) simp
qed

lemma claim_takes_least:
  assumes "claim q v a now s = Inr (Some msg, c)"
  shows "\<exists>m \<in> set (cols s (col q)). deleted m = None \<and> visible m \<le> now
           \<and> msg = m\<lparr>tries := tries m + 1, ack := Some a, visible := now + v * 1000\<rparr>
           \<and> (\<forall>e \<in> set (cols s (col q)). deleted e = None \<and> visible e \<le> now \<longrightarrow> oid m \<le> oid e)"
proof -
  from assms obtain pre m post where "cols s (col q) = pre @ m # post" "claimable now m"
    "\<forall>e \<in> set (cols s (col q)). claimable now e \<longrightarrow> oid m \<le> oid e"
    "msg = claim_update a (plusSecs now v) m"
    by (rule claim_split)
  then have "m \<in> set (cols s (col q))" "deleted m = None \<and> visible m \<le> now"
    "msg = m\<lparr>tries := tries m + 1, ack := Some a, visible := now + v * 1000\<rparr>"
    "\<forall>e \<in> set (cols s (col q)). deleted e = None \<and> visible e \<le> now \<longrightarrow> oid m \<le> oid e"
    by (simp_all add: claimable_def claim_update_def plusSecs_def)
  then show ?thesis by blast
qed

lemma get_takes_least:
  assumes "fst (get q vis toks now s) = Inr (Some j)" and "deadQueue q = None"
  shows "\<exists>m \<in> set (cols s (col q)). deleted m = None \<and> visible m \<le> now
           \<and> job_id j = oid m \<and> job_payload j = payload m \<and> job_tries j = tries m + 1
           \<and> (\<forall>e \<in> set (cols s (col q)). deleted e = None \<and> visible e \<le> now \<longrightarrow> oid m \<le> oid e)"
proof (cases q vis toks now s rule: get_cases)
  case (return msg c)
  from claim_takes_least [OF return(1)] return(3) assms(1)
  show ?thesis by (auto simp: to_job_def)
qed (use assms in simp_all)

lemma gets_fifo:
  assumes np: "deadQueue q = None \<or> 1 \<le> maxRetries q"
    and d: "distinct (map oid (cols s (col q)))"
    and f: "\<forall>d \<in> set (cols s (col q)). deleted d = None \<and> visible d = t0 \<and> tries d = 0 \<and> ack d = None"
    and l: "length calls = length (cols s (col q))"
    and t: "\<forall>c \<in> set calls. t0 \<le> call_time c"
    and u: "undisturbed (visibility q) calls"
    and k: "distinct (map (\<lambda>c. call_toks c 0) calls)"
  shows "fst (gets q calls s) =
      map2 (\<lambda>d c. Inr (Some \<lparr>job_id = oid d, job_ack = Some (call_toks c 0),
                                 job_payload = payload d, job_tries = 1\<rparr>))
        (sort_key oid (cols s (col q))) calls"
proof -
  have all: "filter (fresh t0) (cols s (col q)) = cols s (col q)"
    using f by (simp add: fresh_def)
  have p2: "\<forall>d \<in> set (cols s (col q)). fresh t0 d \<or> (\<forall>c \<in> set calls. \<not> claimable (call_time c) d)"
    using f by (simp add: fresh_def)
  have p6: "\<forall>c \<in> set calls. \<forall>d \<in> set (cols s (col q)). ack d \<noteq> Some (call_toks c 0)"
    using f by simp
  have p7: "length calls = length (filter (fresh t0) (cols s (col q)))"
    using l by (simp only: all)
  from gets_fifo_gen [OF np d p2 t u k p6 p7] show ?thesis
    by (simp only: all)
qed

text \<open>
  Claim C2, as amended. The claim step of \<open>get()\<close> takes, among the documents with no
  \<open>deleted\<close> and \<open>visible \<le> now\<close>, the one with the smallest \<open>_id\<close>, and that is the job a
  queue without dead-letter queue returns. For a collection of \<open>N\<close> new records with
  the same \<open>visible\<close> timestamp (and pairwise distinct \<open>_id\<close>s, as the primary key has
  them), \<open>N\<close> consecutive calls of \<open>get()\<close>, each acknowledged within its visibility window
  or followed only by calls inside that window, with pairwise distinct tokens, return
  the records in ascending order of \<open>_id\<close>, each with \<open>tries = 1\<close>, under two conditions
  that the claim leaves out: the calls are made once the records are visible, and the
  queue has no dead-letter queue or has \<open>maxRetries \<ge> 1\<close>.
\<close>

theorem get_fifo:
  "(claim q v a now s = Inr (Some msg, c) \<longrightarrow>
      (\<exists>m \<in> set (cols s (col q)). deleted m = None \<and> visible m \<le> now
         \<and> msg = m\<lparr>tries := tries m + 1, ack := Some a, visible := now + v * 1000\<rparr>
         \<and> (\<forall>e \<in> set (cols s (col q)). deleted e = None \<and> visible e \<le> now \<longrightarrow> oid m \<le> oid e)))
   \<and> (fst (get q vis toks now s) = Inr (Some j) \<and> deadQueue q = None \<longrightarrow>
      (\<exists>m \<in> set (cols s (col q)). deleted m = None \<and> visible m \<le> now
         \<and> job_id j = oid m \<and> job_payload j = payload m \<and> job_tries j = tries m + 1
         \<and> (\<forall>e \<in> set (cols s (col q)). deleted e = None \<and> visible e \<le> now \<longrightarrow> oid m \<le> oid e)))
   \<and> ((deadQueue q = None \<or> 1 \<le> maxRetries q)
       \<and> distinct (map oid (cols s (col q)))
       \<and> (\<forall>d \<in> set (cols s (col q)).
             deleted d = None \<and> visible d = t0 \<and> tries d = 0 \<and> ack d = None)
       \<and> length calls = length (cols s (col q))
       \<and> (\<forall>c \<in> set calls. t0 \<le> call_time c)
       \<and> undisturbed (visibility q) calls
       \<and> distinct (map (\<lambda>c. call_toks c 0) calls) \<longrightarrow>
      fst (gets q calls s) =
        map2 (\<lambda>d c. Inr (Some \<lparr>job_id = oid d, job_ack = Some (call_toks c 0),
                                   job_payload = payload d, job_tries = 1\<rparr>))
          (sort_key oid (cols s (col q))) calls)"
  using claim_takes_least [of q v a now s msg c] get_takes_least [of q vis toks now s j]
    gets_fifo [of q s t0 calls]
  by blast

theorem get_fifo_witness:
  "fst (gets Q1 calls_three db_three) =
     [Inr (Some \<lparr>job_id = 0, job_ack = Some ''x'', job_payload = JStr ''a'', job_tries = 1\<rparr>),
      Inr (Some \<lparr>job_id = 1, job_ack = Some ''y'', job_payload = JStr ''b'', job_tries = 1\<rparr>),
      Inr (Some \<lparr>job_id = 2, job_ack = Some ''z'', job_payload = JStr ''c'', job_tries = 1\<rparr>)]"
proof -
  have h: "(deadQueue Q1 = None \<or> 1 \<le> maxRetries Q1)
       \<and> distinct (map oid (cols db_three (col Q1)))
       \<and> (\<forall>d \<in> set (cols db_three (col Q1)).
             deleted d = None \<and> visible d = 0 \<and> tries d = 0 \<and> ack d = None)
       \<and> length calls_three = length (cols db_three (col Q1))
       \<and> (\<forall>c \<in> set calls_three. 0 \<le> call_time c)
       \<and> undisturbed (visibility Q1) calls_three
       \<and> distinct (map (\<lambda>c. call_toks c 0) calls_three)"
    by (simp add: Q1_def db_three_def calls_three_def)
  from get_fifo [where q = Q1 and s = db_three and calls = calls_three and ?t0.0 = 0] h
  have "fst (gets Q1 calls_three db_three) =
        map2 (\<lambda>d c. Inr (Some \<lparr>job_id = oid d, job_ack = Some (call_toks c 0),
                                   job_payload = payload d, job_tries = 1\<rparr>))
          (sort_key oid (cols db_three (col Q1))) calls_three"
    by blast
  then show ?thesis
    by (simp add: Q1_def db_three_def calls_three_def)
qed

text \<open>
  The claim as stated fails twice. With a dead-letter queue and \<open>maxRetries = 0\<close>, the
  first \<open>get()\<close> moves both new records to the dead-letter queue and returns nothing, and
  so does the second. And two records added with a delay of ten seconds have the same
  \<open>visible\<close> timestamp, yet two calls of \<open>get()\<close> made before it return nothing.
\<close>

theorem get_fifo_counterexample:
  "map visible (cols (snd (add Q0 (JArr [JStr ''a'', JStr ''b'']) None 0 empty_db)) (col Q0)) = [0, 0]
   \<and> fst (gets Q0 calls_two (snd (add Q0 (JArr [JStr ''a'', JStr ''b'']) None 0 empty_db)))
       = [Inr None, Inr None]
   \<and> map visible (cols (snd (add Q1 (JArr [JStr ''a'', JStr ''b'']) (Some 10) 0 empty_db)) (col Q1))
       = [10000, 10000]
   \<and> fst (gets Q1 calls_two (snd (add Q1 (JArr [JStr ''a'', JStr ''b'']) (Some 10) 0 empty_db)))
       = [Inr None, Inr None]"
  by code_simp

subsection \<open>The indexes are invariants\<close>

text \<open>
  Every call of the queue keeps the guarantees of the store, so the hypotheses on the
  primary key and on the unique index made above hold in every database reached from
  the empty one.
\<close>

lemma wf_db_empty: "wf_db empty_db"
  by (simp add: wf_db_def wf_col_def empty_db_def ack_unique_def)

lemma wf_db_update:
  assumes "wf_db s" and "wf_col (next_oid s) c"
  shows "wf_db (s\<lparr>cols := (cols s)(name := c)\<rparr>)"
  using assms by (simp add: wf_db_def)

lemma wf_col_replace:
  assumes w: "wf_col n (pre @ d # post)" and o: "oid d' = oid d"
    and a: "ack d' = ack d \<or> (\<forall>e \<in> set pre \<union> set post. ack e \<noteq> ack d')"
  shows "wf_col n (pre @ d' # post)"
proof -
  have "ack_unique (pre @ d' # post)"
  proof (cases "ack d' = ack d")
    case True
    with w show ?thesis by (simp add: wf_col_def ack_unique_def)
  next
    case False
    with a have n: "\<forall>e \<in> set pre \<union> set post. ack e \<noteq> ack d'" by simp
    from w have "distinct (filter (\<lambda>x. x \<noteq> None) (map ack pre) @ filter (\<lambda>x. x \<noteq> None) (map ack post))"
      by (auto simp: wf_col_def ack_unique_def split: if_splits)
    with n show ?thesis
      by (auto simp: ack_unique_def)
  qed
  with w o show ?thesis by (simp add: wf_col_def)
qed

lemma new_docs_wf:
  assumes "wf_col n c"
  shows "wf_col (n + length ps) (c @ new_docs n vis ps)"
proof -
  have a: "filter (\<lambda>x. x \<noteq> None) (map ack (new_docs k vis ps)) = []" for k
    by (induction ps arbitrary: k) simp_all
  have "map oid (c @ new_docs n vis ps) = map oid c @ [n ..< n + length ps]"
    by (simp add: new_docs_oids)
  moreover have "distinct (map oid c @ [n ..< n + length ps])"
    using assms by (auto simp: wf_col_def)
  ultimately have "distinct (map oid (c @ new_docs n vis ps))" by simp
  moreover have "ack_unique (c @ new_docs n vis ps)"
  proof -
    have "ack_unique c" using assms by (simp add: wf_col_def)
    then show ?thesis
      unfolding ack_unique_def by (simp only: map_append filter_append a append_Nil2)
  qed
  moreover have "\<forall>d \<in> oid ` set (c @ new_docs n vis ps). d < n + length ps"
  proof -
    have "oid ` set (c @ new_docs n vis ps) = oid ` set c \<union> set [n ..< n + length ps]"
      using new_docs_oids [of n vis ps] by (metis image_Un set_append set_map)
    then show ?thesis using assms by (auto simp: wf_col_def)
  qed
  ultimately show ?thesis by (simp add: wf_col_def)
qed

lemma update_first_map:
  "(\<And>d. g (f d) = g d) \<Longrightarrow> map g (update_first P f c) = map g c"
  by (induction c) auto

lemma wf_col_cong:
  assumes "map oid c' = map oid c" and "map ack c' = map ack c" and "wf_col n c"
  shows "wf_col n c'"
proof -
  have "\<forall>i \<in> set (map oid c). i < n" using assms(3) by (simp add: wf_col_def)
  then have "\<forall>i \<in> set (map oid c'). i < n" by (simp only: assms(1))
  then have "\<forall>d \<in> set c'. oid d < n" by simp
  with assms show ?thesis by (simp add: wf_col_def ack_unique_def)
qed

lemma wf_col_mono: "wf_col n c \<Longrightarrow> n \<le> k \<Longrightarrow> wf_col k c"
  by (auto simp: wf_col_def)

lemma add_wf:
  assumes "wf_db s"
  shows "wf_db (snd (add q p dly now s))"
proof (cases "arr p = []")
  case True
  then show ?thesis using assms by (simp add: add_def insertMany_def)
next
  case False
  define vis where "vis = (if (case dly of None \<Rightarrow> delay q | Some d \<Rightarrow> d) \<noteq> 0
    then plusSecs now (case dly of None \<Rightarrow> delay q | Some d \<Rightarrow> d) else now)"
  let ?n = "next_oid s + length (arr p)"
  have s': "snd (add q p dly now s) =
      s\<lparr>cols := (cols s)(col q := cols s (col q) @ new_docs (next_oid s) vis (arr p)), next_oid := ?n\<rparr>"
    using False by (simp add: add_def insertMany_def Let_def vis_def)
  have "wf_col ?n (cols s name)" for name
    using assms by (auto simp: wf_db_def intro: wf_col_mono)
  moreover have "wf_col ?n (cols s (col q) @ new_docs (next_oid s) vis (arr p))"
    using assms by (simp add: wf_db_def new_docs_wf)
  ultimately show ?thesis
    unfolding s' by (simp add: wf_db_def)
qed

lemma ping_wf:
  assumes "wf_db s"
  shows "wf_db (snd (ping q a vis now s))"
proof (cases "\<exists>d \<in> set (cols s (col q)). outstanding a now d")
  case False
  then have "\<forall>e \<in> set (cols s (col q)). \<not> outstanding a now e" by blast
  from ping_not_found [OF this] assms show ?thesis by simp
next
  case True
  from split_list_first_prop [OF this]
  obtain pre d post where *: "cols s (col q) = pre @ d # post" "outstanding a now d"
    "\<forall>e \<in> set pre. \<not> outstanding a now e" by blast
  let ?d' = "d\<lparr>visible := now + (case vis of None \<Rightarrow> visibility q | Some v \<Rightarrow> v) * 1000\<rparr>"
  have "wf_col (next_oid s) (pre @ d # post)"
    using assms *(1) by (metis wf_db_def)
  then have "wf_col (next_oid s) (pre @ ?d' # post)"
    by (rule wf_col_replace) simp_all
  with assms show ?thesis
    by (simp add: ping_found [OF *] wf_db_update)
qed

lemma ack_op_wf:
  assumes "wf_db s"
  shows "wf_db (snd (ack_op q a now s))"
proof (cases "\<exists>d \<in> set (cols s (col q)). outstanding a now d")
  case False
  then have "\<forall>e \<in> set (cols s (col q)). \<not> outstanding a now e" by blast
  from ack_op_not_found [OF this] assms show ?thesis by simp
next
  case True
  from split_list_first_prop [OF this]
  obtain pre d post where *: "cols s (col q) = pre @ d # post" "outstanding a now d"
    "\<forall>e \<in> set pre. \<not> outstanding a now e" by blast
  have "wf_col (next_oid s) (pre @ d # post)"
    using assms *(1) by (metis wf_db_def)
  then have "wf_col (next_oid s) (pre @ d\<lparr>deleted := Some now\<rparr> # post)"
    by (rule wf_col_replace) simp_all
  with assms show ?thesis
    by (simp add: ack_op_found [OF *] wf_db_update)
qed

lemma claim_checked:
  assumes "claim q v a now s = Inr (Some msg, c)"
  obtains pre m post where "cols s (col q) = pre @ m # post" "m \<notin> set pre"
    "msg = claim_update a (plusSecs now v) m" "c = pre @ msg # post"
    "ack m = Some a \<or> (\<forall>e \<in> set (cols s (col q)). oid e \<noteq> oid m \<longrightarrow> ack e \<noteq> Some a)"
    "claimable now m"
proof -
  from assms obtain m where f: "first_by_id (filter (claimable now) (cols s (col q))) = Some m"
    and r: "msg = claim_update a (plusSecs now v) m"
      "c = update_first (\<lambda>d. d = m) (\<lambda>d. msg) (cols s (col q))"
    and n: "\<not> (ack msg \<noteq> ack m \<and> ack msg \<noteq> None
          \<and> (\<exists>e \<in> set (cols s (col q)). oid e \<noteq> oid m \<and> ack e = ack msg))"
    by (auto simp: claim_def findOneAndUpdate_def Let_def split: option.splits if_splits)
  have "m \<in> set (cols s (col q))" and cm: "claimable now m"
    using first_by_id_mem [OF f] by simp_all
  from split_list_first [OF this(1)] obtain pre post where
    p: "cols s (col q) = pre @ m # post" "m \<notin> set pre" by blast
  have c: "c = pre @ msg # post"
    using r(2) p by (simp add: update_first_at)
  have am: "ack msg = Some a" by (simp add: r(1) claim_update_def)
  have "ack m = Some a \<or> (\<forall>e \<in> set (cols s (col q)). oid e \<noteq> oid m \<longrightarrow> ack e \<noteq> Some a)"
    using n unfolding am by auto
  with p r(1) c cm that show thesis by blast
qed

lemma claim_wf:
  assumes w: "wf_db s" and cl: "claim q v a now s = Inr (Some msg, c)"
  shows "wf_db (s\<lparr>cols := (cols s)(col q := c)\<rparr>)"
proof -
  from cl obtain pre m post where c0: "cols s (col q) = pre @ m # post"
    and msg: "msg = claim_update a (plusSecs now v) m" and c: "c = pre @ msg # post"
    and chk: "ack m = Some a \<or> (\<forall>e \<in> set (cols s (col q)). oid e \<noteq> oid m \<longrightarrow> ack e \<noteq> Some a)"
    by (rule claim_checked)
  have w0: "wf_col (next_oid s) (pre @ m # post)" using w c0 by (metis wf_db_def)
  have am: "ack msg = Some a" by (simp add: msg claim_update_def)
  have "oid msg = oid m" by (simp add: msg claim_update_def)
  moreover have "ack msg = ack m \<or> (\<forall>e \<in> set pre \<union> set post. ack e \<noteq> ack msg)"
  proof (cases "ack m = Some a")
    case True
    then show ?thesis by (simp add: am)
  next
    case False
    have "oid m \<notin> oid ` set pre" "oid m \<notin> oid ` set post"
      using w0 by (auto simp: wf_col_def)
    then have "\<forall>e \<in> set pre \<union> set post. oid e \<noteq> oid m"
      by (metis UnE imageI)
    with chk False c0 show ?thesis by (auto simp: am)
  qed
  ultimately have "wf_col (next_oid s) c"
    unfolding c using wf_col_replace [OF w0] by blast
  with w show ?thesis by (rule wf_db_update)
qed

lemma moveToDLQ_wf:
  assumes w: "wf_db s" and m: "oid msg < next_oid s"
  shows "wf_db (snd (moveToDLQ q msg now s))"
proof (cases "deadQueue q")
  case None
  then show ?thesis using w by (simp add: moveToDLQ_def)
next
  case (Some dq)
  show ?thesis
  proof (cases "insertOne msg (cols s (col dq))")
    case (Inl e)
    then show ?thesis using w Some by (simp add: moveToDLQ_def)
  next
    case (Inr c)
    then have c: "c = cols s (col dq) @ [msg]"
      and fresh_id: "\<forall>e \<in> set (cols s (col dq)). oid e \<noteq> oid msg"
      and fresh_ack: "ack msg = None \<or> (\<forall>e \<in> set (cols s (col dq)). ack e \<noteq> ack msg)"
      by (auto simp: insertOne_def split: if_splits)
    let ?s1 = "s\<lparr>cols := (cols s)(col dq := c)\<rparr>"
    have wd: "wf_col (next_oid s) (cols s (col dq))" using w by (simp add: wf_db_def)
    have "ack_unique c"
    proof (cases "ack msg")
      case None
      with wd show ?thesis by (simp add: c wf_col_def ack_unique_def)
    next
      case (Some a)
      with fresh_ack have "Some a \<notin> set (map ack (cols s (col dq)))" by force
      with wd Some show ?thesis by (simp add: c wf_col_def ack_unique_def)
    qed
    moreover have "distinct (map oid c)"
      using wd fresh_id by (auto simp: c wf_col_def)
    ultimately have "wf_col (next_oid s) c"
      using wd m by (simp add: wf_col_def c)
    with w have w1: "wf_db ?s1" by (rule wf_db_update)
    let ?c2 = "updateOne_deleted (oid msg) now (cols ?s1 (col q))"
    have "map oid ?c2 = map oid (cols ?s1 (col q))" "map ack ?c2 = map ack (cols ?s1 (col q))"
      unfolding updateOne_deleted_def by (simp_all add: update_first_map)
    moreover have "wf_col (next_oid ?s1) (cols ?s1 (col q))" using w1 by (metis wf_db_def)
    ultimately have "wf_col (next_oid ?s1) ?c2" by (rule wf_col_cong)
    with w1 have "wf_db (?s1\<lparr>cols := (cols ?s1)(col q := ?c2)\<rparr>)" by (rule wf_db_update)
    then show ?thesis
      using Some Inr by (simp add: moveToDLQ_def Let_def)
  qed
qed

lemma get_wf:
  assumes "wf_db s"
  shows "wf_db (snd (get q vis toks now s))"
  using assms
proof (induction "card (pending_ids q s)" arbitrary: s vis toks rule: less_induct)
  case less
  show ?case
  proof (cases q vis toks now s rule: get_cases)
    case (error e)
    then show ?thesis using less.prems by simp
  next
    case (empty c)
    then show ?thesis using less.prems by simp
  next
    case (return msg c)
    then show ?thesis using claim_wf [OF less.prems return(1)] by simp
  next
    case (move_failed msg c e dq)
    then show ?thesis using claim_wf [OF less.prems move_failed(1)] by simp
  next
    case (recurse msg c s2 dq)
    let ?v = "case vis of None \<Rightarrow> visibility q | Some v \<Rightarrow> v"
    let ?s1 = "s\<lparr>cols := (cols s)(col q := c)\<rparr>"
    have w1: "wf_db ?s1" by (rule claim_wf [OF less.prems recurse(1)])
    from recurse(1) obtain pre post where "c = pre @ msg # post" by (rule claim_split)
    then have "msg \<in> set (cols ?s1 (col q))" by simp
    moreover have "wf_col (next_oid ?s1) (cols ?s1 (col q))" using w1 by (metis wf_db_def)
    ultimately have "oid msg < next_oid ?s1" by (simp add: wf_col_def)
    from moveToDLQ_wf [OF w1 this, of q now] recurse(4) have w2: "wf_db s2" by simp
    have "card (pending_ids q s2) < card (pending_ids q s)"
      using get_step_decreases [OF recurse(1) recurse(4)] recurse(2) by simp
    from less.hyps [OF this w2, of "Some ?v" "\<lambda>n. toks (Suc n)"] recurse(5)
    show ?thesis by simp
  qed
qed

subsection \<open>A spent token stays spent\<close>

lemma spent_fails:
  assumes "spent a (cols s (col q))"
  shows "ack_op q a now s = (Inl (UnknownAck a), s)" and "ping q a vis now s = (Inl (UnknownAck a), s)"
proof -
  have n: "\<forall>e \<in> set (cols s (col q)). \<not> outstanding a now e"
    using assms by (auto simp: spent_def outstanding_def)
  show "ack_op q a now s = (Inl (UnknownAck a), s)" by (rule ack_op_not_found [OF n])
  show "ping q a vis now s = (Inl (UnknownAck a), s)" by (rule ping_not_found [OF n])
qed

lemma spent_replace:
  assumes "spent a (pre @ d # post)"
    and "(ack d' = ack d \<and> (deleted d \<noteq> None \<longrightarrow> deleted d' \<noteq> None))
         \<or> (ack d \<noteq> Some a \<and> ack d' \<noteq> Some a)"
  shows "spent a (pre @ d' # post)"
  using assms unfolding spent_def by (elim disjE conjE) (simp; blast)+

lemma spent_append:
  assumes "spent a c" and "\<forall>d \<in> set new. ack d \<noteq> Some a"
  shows "spent a (c @ new)"
  using assms unfolding spent_def by auto

lemma update_first_mem:
  "d' \<in> set (update_first P f c) \<Longrightarrow> d' \<in> set c \<or> (\<exists>d \<in> set c. d' = f d)"
  by (induction c) (auto split: if_splits)

lemma spent_updateOne_deleted:
  assumes "spent a c"
  shows "spent a (updateOne_deleted i now c)"
proof -
  have "map ack (updateOne_deleted i now c) = map ack c"
    unfolding updateOne_deleted_def by (simp add: update_first_map)
  then have "set (map ack (updateOne_deleted i now c)) = set (map ack c)" by simp
  then have e: "(\<exists>d \<in> set (updateOne_deleted i now c). ack d = Some a) \<longleftrightarrow> (\<exists>d \<in> set c. ack d = Some a)"
    by (simp only: set_map) (metis (no_types, lifting) imageE imageI)
  have "\<forall>d' \<in> set (updateOne_deleted i now c). ack d' = Some a \<longrightarrow> deleted d' \<noteq> None"
  proof (intro ballI impI)
    fix d' assume m: "d' \<in> set (updateOne_deleted i now c)" and a: "ack d' = Some a"
    from m have "d' \<in> set c \<or> (\<exists>d \<in> set c. d' = d\<lparr>deleted := Some now\<rparr>)"
      unfolding updateOne_deleted_def by (rule update_first_mem)
    then show "deleted d' \<noteq> None" using assms a by (auto simp: spent_def)
  qed
  with e assms show ?thesis by (simp add: spent_def)
qed

lemma add_spent:
  assumes "spent a (cols s n)"
  shows "spent a (cols (snd (add q p dly now s)) n)"
proof (cases "arr p = []")
  case True
  then show ?thesis using assms by (simp add: add_def insertMany_def)
next
  case False
  define vis where "vis = (if (case dly of None \<Rightarrow> delay q | Some d \<Rightarrow> d) \<noteq> 0
    then plusSecs now (case dly of None \<Rightarrow> delay q | Some d \<Rightarrow> d) else now)"
  have s': "snd (add q p dly now s) =
      s\<lparr>cols := (cols s)(col q := cols s (col q) @ new_docs (next_oid s) vis (arr p)),
        next_oid := next_oid s + length (arr p)\<rparr>"
    using False by (simp add: add_def insertMany_def Let_def vis_def)
  have "\<forall>d \<in> set (new_docs k vis ps). ack d \<noteq> Some a" for k ps
    by (induction ps arbitrary: k) simp_all
  then have "spent a (cols s n @ new_docs (next_oid s) vis (arr p))"
    using assms by (simp add: spent_append)
  then show ?thesis
    unfolding s' using assms by auto
qed

lemma ping_spent:
  assumes "spent a (cols s n)"
  shows "spent a (cols (snd (ping q b vis now s)) n)"
proof (cases "\<exists>d \<in> set (cols s (col q)). outstanding b now d")
  case False
  then have "\<forall>e \<in> set (cols s (col q)). \<not> outstanding b now e" by blast
  from ping_not_found [OF this] assms show ?thesis by simp
next
  case True
  from split_list_first_prop [OF this]
  obtain pre d post where *: "cols s (col q) = pre @ d # post" "outstanding b now d"
    "\<forall>e \<in> set pre. \<not> outstanding b now e" by blast
  show ?thesis
  proof (cases "n = col q")
    case True
    with assms *(1) have "spent a (pre @ d # post)" by simp
    then have "spent a (pre @ d\<lparr>visible := now + (case vis of None \<Rightarrow> visibility q | Some v \<Rightarrow> v) * 1000\<rparr> # post)"
      by (rule spent_replace) simp
    then show ?thesis using True by (simp add: ping_found [OF *])
  next
    case False
    then show ?thesis using assms by (simp add: ping_found [OF *])
  qed
qed

lemma ack_op_spent:
  assumes "spent a (cols s n)"
  shows "spent a (cols (snd (ack_op q b now s)) n)"
proof (cases "\<exists>d \<in> set (cols s (col q)). outstanding b now d")
  case False
  then have "\<forall>e \<in> set (cols s (col q)). \<not> outstanding b now e" by blast
  from ack_op_not_found [OF this] assms show ?thesis by simp
next
  case True
  from split_list_first_prop [OF this]
  obtain pre d post where *: "cols s (col q) = pre @ d # post" "outstanding b now d"
    "\<forall>e \<in> set pre. \<not> outstanding b now e" by blast
  show ?thesis
  proof (cases "n = col q")
    case True
    with assms *(1) have "spent a (pre @ d # post)" by simp
    then have "spent a (pre @ d\<lparr>deleted := Some now\<rparr> # post)"
      by (rule spent_replace) simp
    then show ?thesis using True by (simp add: ack_op_found [OF *])
  next
    case False
    then show ?thesis using assms by (simp add: ack_op_found [OF *])
  qed
qed

lemma claim_spent:
  assumes w: "wf_db s" and sp: "spent a (cols s n)"
    and cl: "claim q v b now s = Inr (Some msg, c)"
  shows "spent a (cols (s\<lparr>cols := (cols s)(col q := c)\<rparr>) n)"
proof (cases "n = col q")
  case False
  then show ?thesis using sp by simp
next
  case True
  from cl obtain pre m post where c0: "cols s (col q) = pre @ m # post"
    and msg: "msg = claim_update b (plusSecs now v) m" and c: "c = pre @ msg # post"
    and chk: "ack m = Some b \<or> (\<forall>e \<in> set (cols s (col q)). oid e \<noteq> oid m \<longrightarrow> ack e \<noteq> Some b)"
    and cm: "claimable now m"
    by (rule claim_checked)
  have sp0: "spent a (pre @ m # post)" using sp True c0 by simp
  have nm: "ack m \<noteq> Some a"
    using sp0 cm by (auto simp: spent_def claimable_def)
  have "b \<noteq> a"
  proof
    assume ba: "b = a"
    from sp0 obtain d0 where d0: "d0 \<in> set (pre @ m # post)" "ack d0 = Some a"
      by (auto simp: spent_def)
    with nm have "d0 \<in> set pre \<union> set post" by auto
    moreover have "wf_col (next_oid s) (pre @ m # post)" using w c0 by (metis wf_db_def)
    then have "oid m \<notin> oid ` set pre" "oid m \<notin> oid ` set post" by (auto simp: wf_col_def)
    ultimately have "oid d0 \<noteq> oid m" by (metis UnE imageI)
    with chk nm ba d0(1) c0 have "ack d0 \<noteq> Some a" by auto
    with d0(2) show False by simp
  qed
  then have "ack msg \<noteq> Some a" by (simp add: msg claim_update_def)
  with nm have "spent a (pre @ msg # post)"
    using spent_replace [OF sp0] by blast
  then show ?thesis using True c by simp
qed

lemma moveToDLQ_spent:
  assumes sp: "spent a (cols s n)"
  shows "spent a (cols (snd (moveToDLQ q msg now s)) n)"
proof (cases "deadQueue q")
  case None
  then show ?thesis using sp by (simp add: moveToDLQ_def)
next
  case (Some dq)
  show ?thesis
  proof (cases "insertOne msg (cols s (col dq))")
    case (Inl e)
    then show ?thesis using sp Some by (simp add: moveToDLQ_def)
  next
    case (Inr c)
    then have c: "c = cols s (col dq) @ [msg]"
      and fresh_ack: "ack msg = None \<or> (\<forall>e \<in> set (cols s (col dq)). ack e \<noteq> ack msg)"
      by (auto simp: insertOne_def split: if_splits)
    let ?s1 = "s\<lparr>cols := (cols s)(col dq := c)\<rparr>"
    have sp1: "spent a (cols ?s1 n)"
    proof (cases "n = col dq")
      case False
      then show ?thesis using sp by simp
    next
      case True
      from sp True obtain d0 where "d0 \<in> set (cols s (col dq))" "ack d0 = Some a"
        by (auto simp: spent_def)
      with fresh_ack have "ack msg \<noteq> Some a" by auto
      then have "spent a (cols s n @ [msg])" using sp by (simp add: spent_append)
      then show ?thesis using True c by simp
    qed
    let ?s2 = "?s1\<lparr>cols := (cols ?s1)(col q := updateOne_deleted (oid msg) now (cols ?s1 (col q)))\<rparr>"
    have "spent a (cols ?s2 n)"
    proof (cases "n = col q")
      case True
      with sp1 have "spent a (cols ?s1 (col q))" by simp
      from spent_updateOne_deleted [OF this] True show ?thesis by simp
    next
      case False
      then show ?thesis using sp1 by simp
    qed
    moreover have "snd (moveToDLQ q msg now s) = ?s2"
      using Some Inr by (simp add: moveToDLQ_def Let_def)
    ultimately show ?thesis by simp
  qed
qed

lemma get_spent:
  assumes "wf_db s" and "spent a (cols s n)"
  shows "spent a (cols (snd (get q vis toks now s)) n)"
  using assms
proof (induction "card (pending_ids q s)" arbitrary: s vis toks rule: less_induct)
  case less
  show ?case
  proof (cases q vis toks now s rule: get_cases)
    case (error e)
    then show ?thesis using less.prems by simp
  next
    case (empty c)
    then show ?thesis using less.prems by simp
  next
    case (return msg c)
    then show ?thesis using claim_spent [OF less.prems return(1)] by simp
  next
    case (move_failed msg c e dq)
    then show ?thesis using claim_spent [OF less.prems move_failed(1)] by simp
  next
    case (recurse msg c s2 dq)
    let ?v = "case vis of None \<Rightarrow> visibility q | Some v \<Rightarrow> v"
    let ?s1 = "s\<lparr>cols := (cols s)(col q := c)\<rparr>"
    have w1: "wf_db ?s1" by (rule claim_wf [OF less.prems(1) recurse(1)])
    have sp1: "spent a (cols ?s1 n)" by (rule claim_spent [OF less.prems recurse(1)])
    from recurse(1) obtain pre post where "c = pre @ msg # post" by (rule claim_split)
    then have "msg \<in> set (cols ?s1 (col q))" by simp
    moreover have "wf_col (next_oid ?s1) (cols ?s1 (col q))" using w1 by (metis wf_db_def)
    ultimately have "oid msg < next_oid ?s1" by (simp add: wf_col_def)
    from moveToDLQ_wf [OF w1 this, of q now] recurse(4) have w2: "wf_db s2" by simp
    from moveToDLQ_spent [OF sp1, of q msg now] recurse(4) have sp2: "spent a (cols s2 n)" by simp
    have "card (pending_ids q s2) < card (pending_ids q s)"
      using get_step_decreases [OF recurse(1) recurse(4)] recurse(2) by simp
    from less.hyps [OF this w2 sp2, of "Some ?v" "\<lambda>n. toks (Suc n)"] recurse(5)
    show ?thesis by simp
  qed
qed

lemma run_keeps_spent:
  assumes "wf_db s" and "spent a (cols s n)"
  shows "wf_db (run ops s) \<and> spent a (cols (run ops s) n)"
  using assms
proof (induction ops arbitrary: s)
  case Nil
  then show ?case by simp
next
  case (Cons x xs)
  have "wf_db (invoke x s) \<and> spent a (cols (invoke x s) n)"
    using Cons.prems
    by (cases x) (simp_all add: add_wf add_spent get_wf get_spent ping_wf ping_spent ack_op_wf ack_op_spent)
  with Cons.IH show ?case by simp
qed

lemma ack_op_spends:
  assumes u: "ack_unique (cols s (col q))" and a: "ack_op q a now s = (Inr i, s')"
  shows "spent a (cols s' (col q))"
proof -
  from a obtain pre d post where c: "cols s (col q) = pre @ d # post"
    and d: "outstanding a now d"
    and s': "s' = s\<lparr>cols := (cols s)(col q := pre @ d\<lparr>deleted := Some now\<rparr> # post)\<rparr>"
    by (rule ack_op_InrD)
  from d have "ack d = Some a" by (simp add: outstanding_def)
  with u c have "\<forall>e \<in> set pre \<union> set post. ack e \<noteq> Some a"
    using ack_unique_others by simp
  then show ?thesis
    using \<open>ack d = Some a\<close> by (auto simp: s' spent_def)
qed

text \<open>
  Claim C3. Let \<open>ack(token)\<close> succeed in a database that respects the primary key and
  the unique index on \<open>ack\<close>. Then, after any further calls of \<open>add\<close>, \<open>get\<close>, \<open>ping\<close>
  and \<open>ack\<close> by any queues (none, in particular) and at any time, \<open>ack\<close> and \<open>ping\<close> with
  the same token fail with the unknown-ack error and write nothing. The acknowledged
  document, which now has \<open>deleted\<close> set, is not counted by \<open>size()\<close> nor by \<open>inFlight()\<close>
  (their counts are those of the other documents of the collection), and is counted
  by \<open>total()\<close> and \<open>done()\<close>.
\<close>

theorem ack_final:
  assumes "wf_db s" and "ack_op q a now s = (Inr i, s')"
  shows "ack_op q a now' (run ops s') = (Inl (UnknownAck a), run ops s')
    \<and> ping q a vis now' (run ops s') = (Inl (UnknownAck a), run ops s')
    \<and> (\<exists>pre d post.
          cols s (col q) = pre @ d # post \<and> oid d = i
          \<and> cols s' (col q) = pre @ d\<lparr>deleted := Some now\<rparr> # post
          \<and> size_op q now' s' = length (filter (claimable now') (pre @ post))
          \<and> inFlight q now' s' =
              length (filter (\<lambda>e. ack e \<noteq> None \<and> now' < visible e \<and> deleted e = None) (pre @ post))
          \<and> total_op q s' = Suc (length (pre @ post))
          \<and> done_op q s' = Suc (length (filter (\<lambda>e. deleted e \<noteq> None) (pre @ post))))"
proof -
  from assms(2) obtain pre d post where c: "cols s (col q) = pre @ d # post"
    and i: "i = oid d"
    and s': "s' = s\<lparr>cols := (cols s)(col q := pre @ d\<lparr>deleted := Some now\<rparr> # post)\<rparr>"
    by (rule ack_op_InrD)
  have c': "cols s' (col q) = pre @ d\<lparr>deleted := Some now\<rparr> # post"
    by (simp add: s')
  have u: "ack_unique (cols s (col q))" using assms(1) by (simp add: wf_db_def wf_col_def)
  have w': "wf_db s'" using ack_op_wf [OF assms(1), of q a now] assms(2) by simp
  have "spent a (cols s' (col q))" by (rule ack_op_spends [OF u assms(2)])
  with w' have sp: "spent a (cols (run ops s') (col q))" by (simp add: run_keeps_spent)
  have "size_op q now' s' = length (filter (claimable now') (pre @ post))"
    by (simp add: size_op_def c' claimable_def)
  moreover have "inFlight q now' s' =
      length (filter (\<lambda>e. ack e \<noteq> None \<and> now' < visible e \<and> deleted e = None) (pre @ post))"
    by (simp add: inFlight_def c')
  moreover have "total_op q s' = Suc (length (pre @ post))"
    by (simp add: total_op_def c')
  moreover have "done_op q s' = Suc (length (filter (\<lambda>e. deleted e \<noteq> None) (pre @ post)))"
    by (simp add: done_op_def c')
  ultimately show ?thesis
    using spent_fails [OF sp] c c' i by blast
qed

theorem ack_final_witness:
  "fst (ack_op Q1 ''t'' 2000 (snd (ack_op Q1 ''t'' 1000 db_claimed))) = Inl (UnknownAck ''t'')
   \<and> fst (ping Q1 ''t'' (Some 60) 2000
        (run [Add Q1 (JStr ''b'') None 1500, Get Q1 None toks0 1600]
           (snd (ack_op Q1 ''t'' 1000 db_claimed)))) = Inl (UnknownAck ''t'')"
proof -
  let ?s' = "\<lparr>cols = (\<lambda>n. [])(''jobs'' :=
        [\<lparr>oid = 0, payload = JStr ''a'', visible = 30000, tries = 1, ack = Some ''t'', deleted = Some 1000\<rparr>]),
      next_oid = 1\<rparr>"
  have w: "wf_db db_claimed"
    by (simp add: wf_db_def wf_col_def ack_unique_def db_claimed_def)
  have a: "ack_op Q1 ''t'' 1000 db_claimed = (Inr 0, ?s')"
    by (simp add: ack_op_def findOneAndUpdate_def outstanding_def db_claimed_def Q1_def Let_def)
  from ack_final [OF w a, where now' = 2000 and ops = "[]"]
  have 1: "fst (ack_op Q1 ''t'' 2000 (snd (ack_op Q1 ''t'' 1000 db_claimed))) = Inl (UnknownAck ''t'')"
    by (simp add: a)
  from ack_final [OF w a, where now' = 2000 and vis = "Some 60"
      and ops = "[Add Q1 (JStr ''b'') None 1500, Get Q1 None toks0 1600]"]
  have 2: "fst (ping Q1 ''t'' (Some 60) 2000
        (run [Add Q1 (JStr ''b'') None 1500, Get Q1 None toks0 1600]
           (snd (ack_op Q1 ''t'' 1000 db_claimed)))) = Inl (UnknownAck ''t'')"
    by (simp only: a snd_conv fst_conv)
  from 1 2 show ?thesis by blast
qed

subsection \<open>The call of \<open>get\<close> with the clock running\<close>

lemma claim_at_same: "claim_at q v a now now s = claim q v a now s"
  by (simp add: claim_at_def claim_def)

lemma claim_at_split:
  assumes "claim_at q v a tq ts s = Inr (Some msg, c)"
  obtains pre m post where "cols s (col q) = pre @ m # post" "m \<notin> set pre" "claimable tq m"
    "msg = claim_update a (plusSecs ts v) m" "c = pre @ msg # post"
proof -
  from assms obtain m where f: "first_by_id (filter (claimable tq) (cols s (col q))) = Some m"
    and r: "msg = claim_update a (plusSecs ts v) m"
      "c = update_first (\<lambda>d. d = m) (\<lambda>d. msg) (cols s (col q))"
    by (auto simp: claim_at_def findOneAndUpdate_def Let_def split: option.splits if_splits)
  have "m \<in> set (cols s (col q))" and cm: "claimable tq m"
    using first_by_id_mem [OF f] by simp_all
  from split_list_first [OF this(1)] obtain pre post where
    p: "cols s (col q) = pre @ m # post" "m \<notin> set pre" by blast
  have "c = pre @ msg # post"
    using r(2) p by (simp add: update_first_at)
  with p r(1) cm that show thesis by blast
qed

lemma claim_at_oids:
  assumes "claim_at q v a tq ts s = Inr (Some msg, c)"
  shows "map oid c = map oid (cols s (col q))" and "oid msg \<in> oid ` set (cols s (col q))"
proof -
  from assms obtain pre m post where c0: "cols s (col q) = pre @ m # post"
    and msg: "msg = claim_update a (plusSecs ts v) m" and c: "c = pre @ msg # post"
    by (rule claim_at_split)
  have o: "oid msg = oid m" by (simp add: msg claim_update_def)
  show "map oid c = map oid (cols s (col q))" by (simp add: c c0 o)
  show "oid msg \<in> oid ` set (cols s (col q))" by (simp add: c0 o)
qed

lemma moveToDLQ_other_col:
  assumes m: "moveToDLQ q msg t s = (Inr u, s2)" and dq: "deadQueue q = Some dq"
    and o: "oid msg \<in> oid ` set (cols s (col q))"
  shows "col dq \<noteq> col q"
proof
  assume "col dq = col q"
  with moveToDLQ_InrD(1) [OF m dq] o show False by simp
qed

lemma get_clocked_step_decreases:
  assumes c: "claim_at q v a tq ts s = Inr (Some msg, c)"
    and m: "moveToDLQ q msg t (s\<lparr>cols := (cols s)(col q := c)\<rparr>) = (Inr u, s2)"
    and dq: "deadQueue q \<noteq> None"
  shows "card (pending_ids q s2) < card (pending_ids q s)"
proof -
  from dq obtain dq where dq: "deadQueue q = Some dq" by auto
  note co = claim_at_oids [OF c]
  have oc: "oid ` set c = oid ` set (cols s (col q))" using co(1) by (metis set_map)
  note mv = moveToDLQ_InrD [OF m dq]
  have ne: "col dq \<noteq> col q"
    by (rule moveToDLQ_other_col [OF m dq]) (simp add: oc co(2))
  have q2: "oid ` set (cols s2 (col q)) = oid ` set (cols s (col q))"
  proof -
    have "map oid (cols s2 (col q)) = map oid c"
      using ne by (simp add: mv(3) updateOne_deleted_def update_first_oids)
    then show ?thesis using co(1) by (metis set_map)
  qed
  have d2: "oid ` set (cols s2 (col dq)) = insert (oid msg) (oid ` set (cols s (col dq)))"
    using ne by (simp add: mv(3))
  have notin: "oid msg \<notin> oid ` set (cols s (col dq))"
    using mv(1) ne by simp
  have "pending_ids q s2 = pending_ids q s - {oid msg}"
    by (auto simp: pending_ids_def dq q2 d2)
  moreover have "oid msg \<in> pending_ids q s"
    using co(2) notin by (simp add: pending_ids_def dq)
  moreover have "finite (pending_ids q s)"
    by (simp add: pending_ids_def dq)
  ultimately show ?thesis
    by (metis card_Diff1_less)
qed

termination get_clocked
proof (relation "measure (\<lambda>(q, vis, toks, clk, s). card (pending_ids q s))", goal_cases)
  case 1
  show ?case by simp
next
  case 2
  then show ?case
    using get_clocked_step_decreases by auto
qed

termination get_clocked_recursions
proof (relation "measure (\<lambda>(q, vis, toks, clk, s). card (pending_ids q s))", goal_cases)
  case 1
  show ?case by simp
next
  case 2
  then show ?case
    using get_clocked_step_decreases by auto
qed

declare get_clocked.simps [simp del] get_clocked_recursions.simps [simp del]

lemma get_clocked_cases [consumes 0, case_names error empty return move_failed recurse]:
  fixes q vis toks clk s
  defines "v \<equiv> (case vis of None \<Rightarrow> visibility q | Some v \<Rightarrow> v)"
  obtains
    e where "claim_at q v (toks 0) (clk 0) (clk 1) s = Inl e"
      "get_clocked q vis toks clk s = (Inl e, s)" "get_clocked_recursions q vis toks clk s = 0"
  | c where "claim_at q v (toks 0) (clk 0) (clk 1) s = Inr (None, c)"
      "get_clocked q vis toks clk s = (Inr None, s)" "get_clocked_recursions q vis toks clk s = 0"
  | msg c where "claim_at q v (toks 0) (clk 0) (clk 1) s = Inr (Some msg, c)"
      "deadQueue q = None \<or> tries msg \<le> maxRetries q"
      "get_clocked q vis toks clk s = (Inr (Some (to_job msg)), s\<lparr>cols := (cols s)(col q := c)\<rparr>)"
      "get_clocked_recursions q vis toks clk s = 0"
  | msg c e dq where "claim_at q v (toks 0) (clk 0) (clk 1) s = Inr (Some msg, c)"
      "deadQueue q = Some dq" "maxRetries q < tries msg"
      "moveToDLQ q msg (clk 2) (s\<lparr>cols := (cols s)(col q := c)\<rparr>) = (Inl e, s\<lparr>cols := (cols s)(col q := c)\<rparr>)"
      "get_clocked q vis toks clk s = (Inl e, s\<lparr>cols := (cols s)(col q := c)\<rparr>)"
      "get_clocked_recursions q vis toks clk s = 0"
  | msg c s2 dq where "claim_at q v (toks 0) (clk 0) (clk 1) s = Inr (Some msg, c)"
      "deadQueue q = Some dq" "maxRetries q < tries msg"
      "moveToDLQ q msg (clk 2) (s\<lparr>cols := (cols s)(col q := c)\<rparr>) = (Inr (), s2)"
      "get_clocked q vis toks clk s =
         get_clocked q (Some v) (\<lambda>n. toks (Suc n)) (\<lambda>n. clk (n + 3)) s2"
      "get_clocked_recursions q vis toks clk s =
         Suc (get_clocked_recursions q (Some v) (\<lambda>n. toks (Suc n)) (\<lambda>n. clk (n + 3)) s2)"
proof (cases "claim_at q v (toks 0) (clk 0) (clk 1) s")
  case (Inl e)
  have "get_clocked q vis toks clk s = (Inl e, s)"
    using Inl by (subst get_clocked.simps) (simp add: v_def)
  moreover have "get_clocked_recursions q vis toks clk s = 0"
    using Inl by (subst get_clocked_recursions.simps) (simp add: v_def)
  ultimately have "get_clocked q vis toks clk s = (Inl e, s)"
    "get_clocked_recursions q vis toks clk s = 0" by blast+
  with Inl show ?thesis by (rule that(1))
next
  case (Inr x)
  obtain mo c where x: "x = (mo, c)" by (cases x)
  show ?thesis
  proof (cases mo)
    case None
    note cl = Inr [unfolded x None]
    have "get_clocked q vis toks clk s = (Inr None, s)"
      using cl by (subst get_clocked.simps) (simp add: v_def)
    moreover have "get_clocked_recursions q vis toks clk s = 0"
      using cl by (subst get_clocked_recursions.simps) (simp add: v_def)
    ultimately have "get_clocked q vis toks clk s = (Inr None, s)"
      "get_clocked_recursions q vis toks clk s = 0" by blast+
    with cl show ?thesis by (rule that(2))
  next
    case (Some msg)
    note cl = Inr [unfolded x Some]
    let ?s1 = "s\<lparr>cols := (cols s)(col q := c)\<rparr>"
    show ?thesis
    proof (cases "deadQueue q \<noteq> None \<and> maxRetries q < tries msg")
      case False
      then have np: "deadQueue q = None \<or> tries msg \<le> maxRetries q" by auto
      have "get_clocked q vis toks clk s = (Inr (Some (to_job msg)), ?s1)"
        using cl False by (subst get_clocked.simps) (auto simp: v_def Let_def)
      moreover have "get_clocked_recursions q vis toks clk s = 0"
        using cl False by (subst get_clocked_recursions.simps) (auto simp: v_def Let_def)
      ultimately have "get_clocked q vis toks clk s = (Inr (Some (to_job msg)), ?s1)"
        "get_clocked_recursions q vis toks clk s = 0" by blast+
      with cl np show ?thesis by (rule that(3))
    next
      case True
      then obtain dq where dq: "deadQueue q = Some dq" and p: "maxRetries q < tries msg" by auto
      obtain r s2 where mv: "moveToDLQ q msg (clk 2) ?s1 = (r, s2)"
        by (cases "moveToDLQ q msg (clk 2) ?s1")
      show ?thesis
      proof (cases r)
        case (Inl e)
        with mv have s2: "s2 = ?s1" using moveToDLQ_InlD by blast
        have "get_clocked q vis toks clk s = (Inl e, ?s1)"
          using cl True mv Inl s2 by (subst get_clocked.simps) (auto simp: v_def Let_def)
        moreover have "get_clocked_recursions q vis toks clk s = 0"
          using cl True mv Inl s2 by (subst get_clocked_recursions.simps) (auto simp: v_def Let_def)
        ultimately have "get_clocked q vis toks clk s = (Inl e, ?s1)"
          "get_clocked_recursions q vis toks clk s = 0"
          by blast+
        with cl dq p mv [unfolded Inl s2] show ?thesis by (rule that(4))
      next
        case (Inr u)
        have "get_clocked q vis toks clk s =
            get_clocked q (Some v) (\<lambda>n. toks (Suc n)) (\<lambda>n. clk (n + 3)) s2"
          using cl True mv Inr by (subst get_clocked.simps) (auto simp: v_def Let_def)
        moreover
        have "get_clocked_recursions q vis toks clk s =
            Suc (get_clocked_recursions q (Some v) (\<lambda>n. toks (Suc n)) (\<lambda>n. clk (n + 3)) s2)"
          using cl True mv Inr by (subst get_clocked_recursions.simps) (auto simp: v_def Let_def)
        moreover from mv Inr have "moveToDLQ q msg (clk 2) ?s1 = (Inr (), s2)" by simp
        ultimately show ?thesis using cl dq p that(5) by blast
      qed
    qed
  qed
qed

lemma get_clocked_steady:
  "get_clocked q vis toks (\<lambda>n. now) s = get q vis toks now s
   \<and> get_clocked_recursions q vis toks (\<lambda>n. now) s = get_recursions q vis toks now s"
proof (induction "card (pending_ids q s)" arbitrary: s vis toks rule: less_induct)
  case less
  let ?v = "case vis of None \<Rightarrow> visibility q | Some v \<Rightarrow> v"
  show ?case
  proof (cases q vis toks now s rule: get_cases)
    case (error e)
    then show ?thesis
      by (cases q vis toks "\<lambda>n::nat. now" s rule: get_clocked_cases) (simp_all add: claim_at_same)
  next
    case (empty c)
    then show ?thesis
      by (cases q vis toks "\<lambda>n::nat. now" s rule: get_clocked_cases) (simp_all add: claim_at_same)
  next
    case (return msg c)
    then show ?thesis
      by (cases q vis toks "\<lambda>n::nat. now" s rule: get_clocked_cases) (auto simp: claim_at_same)
  next
    case (move_failed msg c e dq)
    then show ?thesis
      by (cases q vis toks "\<lambda>n::nat. now" s rule: get_clocked_cases) (auto simp: claim_at_same)
  next
    case (recurse msg c s2 dq)
    have lt: "card (pending_ids q s2) < card (pending_ids q s)"
      using get_step_decreases [OF recurse(1) recurse(4)] recurse(2) by simp
    note ih = less [OF lt, of "Some ?v" "\<lambda>n. toks (Suc n)"]
    from recurse show ?thesis
    proof (cases q vis toks "\<lambda>n::nat. now" s rule: get_clocked_cases)
      case (recurse msg' c' s2' dq')
      with \<open>claim q ?v (toks 0) now s = Inr (Some msg, c)\<close>
        \<open>moveToDLQ q msg now (s\<lparr>cols := (cols s)(col q := c)\<rparr>) = (Inr (), s2)\<close>
      have "s2' = s2" by (auto simp: claim_at_same)
      with recurse(5,6) ih
        \<open>get q vis toks now s = get q (Some ?v) (\<lambda>n. toks (Suc n)) now s2\<close>
        \<open>get_recursions q vis toks now s = Suc (get_recursions q (Some ?v) (\<lambda>n. toks (Suc n)) now s2)\<close>
      show ?thesis by simp
    qed (auto simp: claim_at_same)
  qed
qed

lemma updateOne_deleted_undeleted:
  "d \<in> set (updateOne_deleted i t c) \<Longrightarrow> deleted d = None \<Longrightarrow> d \<in> set c"
  unfolding updateOne_deleted_def
  by (induction c) (auto split: if_splits)

lemma undeleted_pending_le: "card (undeleted_pending q dq s) + done_op q s \<le> total_op q s"
proof -
  let ?c = "cols s (col q)"
  let ?A = "{d \<in> set ?c. deleted d = None}"
  have "card (undeleted_pending q dq s) \<le> card (oid ` ?A)"
    unfolding undeleted_pending_def by (rule card_mono) auto
  also have "\<dots> \<le> card ?A" by (rule card_image_le) simp
  also have "?A = set (filter (\<lambda>d. deleted d = None) ?c)" by auto
  also have "card \<dots> \<le> length (filter (\<lambda>d. deleted d = None) ?c)" by (rule card_length)
  finally have "card (undeleted_pending q dq s) \<le> length (filter (\<lambda>d. deleted d = None) ?c)" .
  moreover have "length (filter (\<lambda>d. deleted d = None) ?c) + length (filter (\<lambda>d. deleted d \<noteq> None) ?c)
      = length ?c"
    using sum_length_filter_compl [of "\<lambda>d. deleted d = None" ?c] by simp
  ultimately show ?thesis by (simp add: done_op_def total_op_def)
qed

lemma undeleted_pending_step:
  assumes cl: "claim_at q v a tq ts s = Inr (Some msg, c)"
    and mv: "moveToDLQ q msg t (s\<lparr>cols := (cols s)(col q := c)\<rparr>) = (Inr u, s2)"
    and dq: "deadQueue q = Some dq"
  shows "card (undeleted_pending q dq s2) < card (undeleted_pending q dq s)"
proof -
  from cl obtain pre m post where c0: "cols s (col q) = pre @ m # post" and m: "claimable tq m"
    and msg: "msg = claim_update a (plusSecs ts v) m" and c: "c = pre @ msg # post"
    by (rule claim_at_split)
  have om: "oid msg = oid m" by (simp add: msg claim_update_def)
  have ne: "col dq \<noteq> col q"
    by (rule moveToDLQ_other_col [OF mv dq]) (simp add: c)
  note mvd = moveToDLQ_InrD [OF mv dq]
  have d2: "cols s2 (col dq) = cols s (col dq) @ [msg]"
    using ne by (simp add: mvd(3))
  have q2: "cols s2 (col q) = updateOne_deleted (oid msg) t c"
    using ne by (simp add: mvd(3))
  have notin: "oid msg \<notin> oid ` set (cols s (col dq))"
    using mvd(1) ne by simp
  have "undeleted_pending q dq s2 \<subseteq> undeleted_pending q dq s - {oid msg}"
  proof
    fix i assume "i \<in> undeleted_pending q dq s2"
    then obtain d where d: "d \<in> set (cols s2 (col q))" "deleted d = None" "i = oid d"
      and nd: "oid d \<notin> oid ` set (cols s2 (col dq))"
      by (auto simp: undeleted_pending_def)
    from nd d2 have "oid d \<noteq> oid msg" "oid d \<notin> oid ` set (cols s (col dq))" by auto
    moreover from d(1,2) q2 have "d \<in> set c"
      using updateOne_deleted_undeleted by simp
    ultimately have "d \<in> set (cols s (col q))" using c c0 by auto
    with d \<open>oid d \<noteq> oid msg\<close> \<open>oid d \<notin> oid ` set (cols s (col dq))\<close>
    show "i \<in> undeleted_pending q dq s - {oid msg}"
      by (auto simp: undeleted_pending_def)
  qed
  moreover have "oid msg \<in> undeleted_pending q dq s"
    using c0 m om notin by (force simp: undeleted_pending_def claimable_def)
  moreover have "finite (undeleted_pending q dq s)"
    by (simp add: undeleted_pending_def)
  ultimately show ?thesis
    by (metis card_Diff1_less card_mono finite_Diff le_less_trans)
qed

lemma get_clocked_recursions_no_dlq:
  assumes "deadQueue q = None"
  shows "get_clocked_recursions q vis toks clk s = 0"
  using assms by (cases q vis toks clk s rule: get_clocked_cases) simp_all

lemma get_clocked_recursions_le_pending:
  assumes dq: "deadQueue q = Some dq"
  shows "get_clocked_recursions q vis toks clk s \<le> card (undeleted_pending q dq s)"
proof (induction "card (pending_ids q s)" arbitrary: s vis toks clk rule: less_induct)
  case less
  show ?case
  proof (cases q vis toks clk s rule: get_clocked_cases)
    case (recurse msg c s2 dq')
    let ?v = "case vis of None \<Rightarrow> visibility q | Some v \<Rightarrow> v"
    have "card (pending_ids q s2) < card (pending_ids q s)"
      using get_clocked_step_decreases [OF recurse(1) recurse(4)] dq by simp
    from less [OF this, of "Some ?v" "\<lambda>n. toks (Suc n)" "\<lambda>n. clk (n + 3)"]
    have "get_clocked_recursions q (Some ?v) (\<lambda>n. toks (Suc n)) (\<lambda>n. clk (n + 3)) s2
        \<le> card (undeleted_pending q dq s2)" .
    moreover have "card (undeleted_pending q dq s2) < card (undeleted_pending q dq s)"
      by (rule undeleted_pending_step [OF recurse(1) recurse(4) dq])
    ultimately show ?thesis using recurse(6) by simp
  qed simp_all
qed

lemma get_clocked_recursions_le_undeleted:
  "get_clocked_recursions q vis toks clk s + done_op q s \<le> total_op q s"
proof (cases "deadQueue q")
  case None
  have "done_op q s \<le> total_op q s" by (simp add: done_op_def total_op_def)
  then show ?thesis by (simp add: get_clocked_recursions_no_dlq [OF None])
next
  case (Some dq)
  from get_clocked_recursions_le_pending [OF this, of vis toks clk s]
    undeleted_pending_le [of q dq s]
  show ?thesis by simp
qed

lemma get_clocked_recursions_steady:
  assumes "\<forall>n. clk n = clk 0"
  shows "get_clocked_recursions q vis toks clk s \<le> size_op q (clk 0) s"
proof -
  from assms have "clk = (\<lambda>n. clk 0)" by (simp add: fun_eq_iff)
  then have "get_clocked_recursions q vis toks clk s = get_recursions q vis toks (clk 0) s"
    using get_clocked_steady [of q vis toks "clk 0" s] by simp
  then show ?thesis by (simp add: get_recursions_le_size)
qed

lemma updateOne_deleted_at:
  assumes "\<forall>e \<in> set pre. oid e \<noteq> oid x"
  shows "updateOne_deleted (oid x) t (pre @ x # post) = pre @ x\<lparr>deleted := Some t\<rparr> # post"
  using assms unfolding updateOne_deleted_def by (induction pre) auto

lemma deleted_ids_split:
  "deleted_ids (pre @ x # post) =
     deleted_ids pre \<union> deleted_ids post \<union> (if deleted x \<noteq> None then {oid x} else {})"
  by (auto simp: deleted_ids_def)

lemma deleted_ids_oids: "deleted_ids c \<subseteq> oid ` set c"
  by (auto simp: deleted_ids_def)

lemma get_clocked_marks:
  assumes dq: "deadQueue q = Some dq" and ne: "col dq \<noteq> col q"
  shows "distinct (map oid (cols s (col q))) \<Longrightarrow>
    \<exists>moved. cols (snd (get_clocked q vis toks clk s)) (col dq) = cols s (col dq) @ moved
      \<and> length moved = get_clocked_recursions q vis toks clk s
      \<and> (\<forall>m \<in> set moved. maxRetries q < tries m)
      \<and> distinct (map oid moved)
      \<and> deleted_ids (cols (snd (get_clocked q vis toks clk s)) (col q)) =
           deleted_ids (cols s (col q)) \<union> oid ` set moved
      \<and> deleted_ids (cols s (col q)) \<inter> oid ` set moved = {}
      \<and> map oid (cols (snd (get_clocked q vis toks clk s)) (col q)) = map oid (cols s (col q))"
proof (induction "card (pending_ids q s)" arbitrary: s vis toks clk rule: less_induct)
  case less
  let ?v = "case vis of None \<Rightarrow> visibility q | Some v \<Rightarrow> v"
  have claimed: "deleted_ids c = deleted_ids (cols s (col q)) \<and> map oid c = map oid (cols s (col q))"
    if "claim_at q ?v (toks 0) (clk 0) (clk 1) s = Inr (Some msg, c)" for msg c
  proof -
    from that obtain pre m post where c0: "cols s (col q) = pre @ m # post" and m: "claimable (clk 0) m"
      and msg: "msg = claim_update (toks 0) (plusSecs (clk 1) ?v) m" and c: "c = pre @ msg # post"
      by (rule claim_at_split)
    have "deleted msg = None" "deleted m = None" "oid msg = oid m"
      using m by (simp_all add: msg claim_update_def claimable_def)
    then show ?thesis by (simp add: c c0 deleted_ids_split)
  qed
  show ?case
  proof (cases q vis toks clk s rule: get_clocked_cases)
    case (error e)
    then show ?thesis by simp
  next
    case (empty c)
    then show ?thesis by simp
  next
    case (return msg c)
    then show ?thesis using ne claimed [OF return(1)] by simp
  next
    case (move_failed msg c e dq')
    then show ?thesis using ne claimed [OF move_failed(1)] by simp
  next
    case (recurse msg c s2 dq')
    let ?toks = "\<lambda>n. toks (Suc n)"
    let ?clk = "\<lambda>n. clk (n + 3)"
    let ?s' = "snd (get_clocked q (Some ?v) ?toks ?clk s2)"
    from recurse(1) obtain pre m post where c0: "cols s (col q) = pre @ m # post"
      and m: "claimable (clk 0) m"
      and msg: "msg = claim_update (toks 0) (plusSecs (clk 1) ?v) m" and c: "c = pre @ msg # post"
      by (rule claim_at_split)
    have om: "oid msg = oid m" and dm: "deleted msg = None" and dm0: "deleted m = None"
      using m by (simp_all add: msg claim_update_def claimable_def)
    have dist: "distinct (map oid (pre @ m # post))" using less.prems c0 by simp
    then have "oid m \<notin> oid ` set pre" "oid m \<notin> oid ` set post" by auto
    then have pre: "\<forall>e \<in> set pre. oid e \<noteq> oid msg" and post: "\<forall>e \<in> set post. oid e \<noteq> oid msg"
      unfolding om by (metis imageI)+
    note mvd = moveToDLQ_InrD [OF recurse(4) dq]
    have d2: "cols s2 (col dq) = cols s (col dq) @ [msg]"
      using ne by (simp add: mvd(3))
    have q2: "cols s2 (col q) = pre @ msg\<lparr>deleted := Some (clk 2)\<rparr> # post"
      using ne by (simp add: mvd(3) c updateOne_deleted_at [OF pre])
    have del2: "deleted_ids (cols s2 (col q)) = deleted_ids (cols s (col q)) \<union> {oid msg}"
      by (simp add: q2 c0 deleted_ids_split dm0)
    have notdel: "oid msg \<notin> deleted_ids (cols s (col q))"
    proof -
      have "deleted_ids (cols s (col q)) = deleted_ids pre \<union> deleted_ids post"
        by (simp add: c0 deleted_ids_split dm0)
      moreover have "oid msg \<notin> oid ` set pre" "oid msg \<notin> oid ` set post"
        using pre post by (metis imageE)+
      ultimately show ?thesis using deleted_ids_oids by blast
    qed
    have oids2: "map oid (cols s2 (col q)) = map oid (cols s (col q))"
      by (simp add: q2 c0 om)
    have dist2: "distinct (map oid (cols s2 (col q)))"
      using less.prems by (simp only: oids2)
    have lt: "card (pending_ids q s2) < card (pending_ids q s)"
      using get_clocked_step_decreases [OF recurse(1) recurse(4)] dq by simp
    from less.hyps [OF lt dist2, of "Some ?v" ?toks ?clk]
    obtain moved where mv: "cols ?s' (col dq) = cols s2 (col dq) @ moved"
      "length moved = get_clocked_recursions q (Some ?v) ?toks ?clk s2"
      "\<forall>m \<in> set moved. maxRetries q < tries m"
      "distinct (map oid moved)"
      "deleted_ids (cols ?s' (col q)) = deleted_ids (cols s2 (col q)) \<union> oid ` set moved"
      "deleted_ids (cols s2 (col q)) \<inter> oid ` set moved = {}"
      "map oid (cols ?s' (col q)) = map oid (cols s2 (col q))"
      by blast
    have nm: "oid msg \<notin> oid ` set moved" using mv(6) del2 by auto
    have "cols ?s' (col dq) = cols s (col dq) @ (msg # moved)" by (simp add: mv(1) d2)
    moreover have "length (msg # moved) = get_clocked_recursions q vis toks clk s"
      by (simp add: mv(2) recurse(6))
    moreover have "\<forall>m \<in> set (msg # moved). maxRetries q < tries m"
      using mv(3) recurse(3) by simp
    moreover have "distinct (map oid (msg # moved))" using mv(4) nm by simp
    moreover have "deleted_ids (cols ?s' (col q)) =
        deleted_ids (cols s (col q)) \<union> oid ` set (msg # moved)"
      by (simp add: mv(5) del2)
    moreover have "deleted_ids (cols s (col q)) \<inter> oid ` set (msg # moved) = {}"
      using mv(6) del2 notdel by auto
    moreover have "map oid (cols ?s' (col q)) = map oid (cols s (col q))"
      by (simp add: mv(7) oids2)
    ultimately show ?thesis
      unfolding recurse(5) by blast
  qed
qed

lemma done_op_card:
  assumes "distinct (map oid (cols s (col q)))"
  shows "done_op q s = card (deleted_ids (cols s (col q)))"
proof -
  let ?c = "cols s (col q)"
  let ?D = "filter (\<lambda>d. deleted d \<noteq> None) ?c"
  have d: "distinct (map oid ?D)" using assms by (rule distinct_map_filter)
  have "deleted_ids ?c = set (map oid ?D)" by (auto simp: deleted_ids_def)
  then have "card (deleted_ids ?c) = length (map oid ?D)"
    using distinct_card [OF d] by simp
  then show ?thesis by (simp add: done_op_def)
qed

lemma get_clocked_done:
  assumes dq: "deadQueue q = Some dq" and ne: "col dq \<noteq> col q"
    and dist: "distinct (map oid (cols s (col q)))"
  shows "done_op q (snd (get_clocked q vis toks clk s)) =
     done_op q s + get_clocked_recursions q vis toks clk s"
proof -
  let ?s' = "snd (get_clocked q vis toks clk s)"
  from get_clocked_marks [OF dq ne dist, of vis toks clk]
  obtain moved where all: "cols ?s' (col dq) = cols s (col dq) @ moved
      \<and> length moved = get_clocked_recursions q vis toks clk s
      \<and> (\<forall>m \<in> set moved. maxRetries q < tries m)
      \<and> distinct (map oid moved)
      \<and> deleted_ids (cols ?s' (col q)) = deleted_ids (cols s (col q)) \<union> oid ` set moved
      \<and> deleted_ids (cols s (col q)) \<inter> oid ` set moved = {}
      \<and> map oid (cols ?s' (col q)) = map oid (cols s (col q))" ..
  then have len: "length moved = get_clocked_recursions q vis toks clk s"
    and dm: "distinct (map oid moved)"
    and del: "deleted_ids (cols ?s' (col q)) = deleted_ids (cols s (col q)) \<union> oid ` set moved"
    and disj: "deleted_ids (cols s (col q)) \<inter> oid ` set moved = {}"
    and oids: "map oid (cols ?s' (col q)) = map oid (cols s (col q))"
    by simp_all
  have dist': "distinct (map oid (cols ?s' (col q)))" using dist by (simp only: oids)
  have f: "finite (deleted_ids (cols s (col q)))" by (simp add: deleted_ids_def)
  have g: "finite (oid ` set moved)" by simp
  have "card (set (map oid moved)) = length (map oid moved)" by (rule distinct_card [OF dm])
  then have cm: "card (oid ` set moved) = length moved" by simp
  have "card (deleted_ids (cols s (col q)) \<union> oid ` set moved) =
      card (deleted_ids (cols s (col q))) + card (oid ` set moved)"
    by (rule card_Un_disjoint [OF f g disj])
  then have "card (deleted_ids (cols ?s' (col q))) = card (deleted_ids (cols s (col q))) + length moved"
    by (simp only: del cm)
  then show ?thesis
    by (simp only: done_op_card [OF dist] done_op_card [OF dist'] len)
qed

text \<open>
  Claim C6, as amended. \<open>get\<close> is a total function, with the clock running or not: its
  recursion is well-founded, because a recursive call comes only after a dead-letter
  move, which takes one identifier out of those that can still be moved. The number
  of recursive calls of one \<open>get()\<close> is at most the number of documents that are not
  marked deleted when it starts (\<open>total() - done()\<close>). It is at most the number of
  documents claimable when the call starts (\<open>size()\<close>) when the clock does not advance
  during the call, and then \<open>get_clocked\<close> is \<open>get\<close>. With no dead-letter queue there is
  no recursive call. With a dead-letter queue in another collection and a primary key
  on \<open>_id\<close>, the call appends one document per recursive call to the dead-letter queue,
  each with \<open>tries\<close> above \<open>maxRetries\<close>, and the documents it marks deleted in its own
  collection are exactly those it has moved, none of which was marked before: \<open>done()\<close>
  grows by the number of recursive calls.
\<close>

theorem get_recursion_bounded:
  "get_clocked_recursions q vis toks clk s + done_op q s \<le> total_op q s
   \<and> ((\<forall>n. clk n = clk 0) \<longrightarrow>
        get_clocked_recursions q vis toks clk s \<le> size_op q (clk 0) s
        \<and> get_clocked q vis toks clk s = get q vis toks (clk 0) s)
   \<and> (deadQueue q = None \<longrightarrow> get_clocked_recursions q vis toks clk s = 0)
   \<and> (deadQueue q = Some dq \<and> col dq \<noteq> col q \<and> distinct (map oid (cols s (col q))) \<longrightarrow>
        (\<exists>moved. cols (snd (get_clocked q vis toks clk s)) (col dq) = cols s (col dq) @ moved
           \<and> length moved = get_clocked_recursions q vis toks clk s
           \<and> (\<forall>m \<in> set moved. maxRetries q < tries m)
           \<and> deleted_ids (cols (snd (get_clocked q vis toks clk s)) (col q)) =
                deleted_ids (cols s (col q)) \<union> oid ` set moved
           \<and> deleted_ids (cols s (col q)) \<inter> oid ` set moved = {})
        \<and> done_op q (snd (get_clocked q vis toks clk s)) =
             done_op q s + get_clocked_recursions q vis toks clk s)"
proof (intro conjI impI)
  show "get_clocked_recursions q vis toks clk s + done_op q s \<le> total_op q s"
    by (rule get_clocked_recursions_le_undeleted)
next
  assume "\<forall>n. clk n = clk 0"
  then show "get_clocked_recursions q vis toks clk s \<le> size_op q (clk 0) s"
    by (rule get_clocked_recursions_steady)
next
  assume "\<forall>n. clk n = clk 0"
  then have "clk = (\<lambda>n. clk 0)" by (simp add: fun_eq_iff)
  then show "get_clocked q vis toks clk s = get q vis toks (clk 0) s"
    using get_clocked_steady [of q vis toks "clk 0" s] by simp
next
  assume "deadQueue q = None"
  then show "get_clocked_recursions q vis toks clk s = 0"
    by (rule get_clocked_recursions_no_dlq)
next
  assume a: "deadQueue q = Some dq \<and> col dq \<noteq> col q \<and> distinct (map oid (cols s (col q)))"
  then have dq: "deadQueue q = Some dq" and ne: "col dq \<noteq> col q"
    and dist: "distinct (map oid (cols s (col q)))" by simp_all
  let ?s' = "snd (get_clocked q vis toks clk s)"
  from get_clocked_marks [OF dq ne dist, of vis toks clk]
  obtain moved where all: "cols ?s' (col dq) = cols s (col dq) @ moved
      \<and> length moved = get_clocked_recursions q vis toks clk s
      \<and> (\<forall>m \<in> set moved. maxRetries q < tries m)
      \<and> distinct (map oid moved)
      \<and> deleted_ids (cols ?s' (col q)) = deleted_ids (cols s (col q)) \<union> oid ` set moved
      \<and> deleted_ids (cols s (col q)) \<inter> oid ` set moved = {}
      \<and> map oid (cols ?s' (col q)) = map oid (cols s (col q))" ..
  then have "cols ?s' (col dq) = cols s (col dq) @ moved
      \<and> length moved = get_clocked_recursions q vis toks clk s
      \<and> (\<forall>m \<in> set moved. maxRetries q < tries m)
      \<and> deleted_ids (cols ?s' (col q)) = deleted_ids (cols s (col q)) \<union> oid ` set moved
      \<and> deleted_ids (cols s (col q)) \<inter> oid ` set moved = {}"
    by simp
  then show "\<exists>moved. cols (snd (get_clocked q vis toks clk s)) (col dq) = cols s (col dq) @ moved
           \<and> length moved = get_clocked_recursions q vis toks clk s
           \<and> (\<forall>m \<in> set moved. maxRetries q < tries m)
           \<and> deleted_ids (cols (snd (get_clocked q vis toks clk s)) (col q)) =
                deleted_ids (cols s (col q)) \<union> oid ` set moved
           \<and> deleted_ids (cols s (col q)) \<inter> oid ` set moved = {}" ..
  show "done_op q (snd (get_clocked q vis toks clk s)) =
             done_op q s + get_clocked_recursions q vis toks clk s"
    by (rule get_clocked_done [OF dq ne dist])
qed

lemma get_clocked_late:
  "get_clocked_recursions Q0 None toks0 clk_late db_late = 2"
  by code_simp

theorem get_recursion_bounded_witness:
  "get_clocked_recursions Q0 None toks0 clk_late db_late + done_op Q0 db_late \<le> total_op Q0 db_late
   \<and> done_op Q0 (snd (get_clocked Q0 None toks0 clk_late db_late)) = 2
   \<and> get_clocked Q0 None toks0 (\<lambda>n. 0) db_late = get Q0 None toks0 0 db_late"
proof -
  have 1: "deadQueue Q0 = Some D0 \<and> col D0 \<noteq> col Q0 \<and> distinct (map oid (cols db_late (col Q0)))"
    by (simp add: Q0_def D0_def db_late_def)
  have 2: "done_op Q0 db_late = 0" by (simp add: done_op_def Q0_def db_late_def)
  note th = get_recursion_bounded [of Q0 None toks0 clk_late db_late D0]
  have a1: "get_clocked_recursions Q0 None toks0 clk_late db_late + done_op Q0 db_late \<le> total_op Q0 db_late"
    by (rule th [THEN conjunct1])
  have "done_op Q0 (snd (get_clocked Q0 None toks0 clk_late db_late)) =
      done_op Q0 db_late + get_clocked_recursions Q0 None toks0 clk_late db_late"
    using th 1 by blast
  then have a2: "done_op Q0 (snd (get_clocked Q0 None toks0 clk_late db_late)) = 2"
    by (simp only: 2 get_clocked_late add_0)
  have "get_clocked Q0 None toks0 (\<lambda>n. 0) db_late = get Q0 None toks0 ((\<lambda>n. 0) (0::nat)) db_late"
    using get_recursion_bounded [where clk = "\<lambda>n. 0" and q = Q0 and vis = None and toks = toks0
        and s = db_late] by blast
  then have b: "get_clocked Q0 None toks0 (\<lambda>n. 0) db_late = get Q0 None toks0 0 db_late"
    by simp
  from a1 a2 b show ?thesis by blast
qed

text \<open>
  The claim as stated fails when the clock advances during the call: one document is
  claimable at the first reading, a second becomes visible before the recursive call
  reads the clock, and the call makes two recursive calls.
\<close>

theorem get_recursion_counterexample:
  "get_clocked_recursions Q0 None toks0 clk_late db_late = 2
   \<and> size_op Q0 (clk_late 0) db_late = 1"
  using get_clocked_late
  by (simp add: size_op_def Q0_def db_late_def clk_late_def claimable_def)

subsection \<open>The \<open>ack\<close> field from creation to acknowledgement\<close>

lemma unclaimed_clean_replace:
  assumes "unclaimed_clean (pre @ d # post)"
    and "0 \<le> tries d' \<and> (tries d' = 0 \<longrightarrow> ack d' = None)"
  shows "unclaimed_clean (pre @ d' # post)"
  using assms by (auto simp: unclaimed_clean_def)

lemma new_docs_unclaimed: "unclaimed_clean (new_docs n vis ps)"
  by (induction ps arbitrary: n) (simp_all add: unclaimed_clean_def)

lemma unclaimed_clean_append:
  "unclaimed_clean c \<Longrightarrow> unclaimed_clean c' \<Longrightarrow> unclaimed_clean (c @ c')"
  by (auto simp: unclaimed_clean_def)

lemma add_unclaimed:
  assumes "\<forall>name. unclaimed_clean (cols s name)"
  shows "\<forall>name. unclaimed_clean (cols (snd (add q p dly now s)) name)"
proof (cases "arr p = []")
  case True
  then show ?thesis using assms by (simp add: add_def insertMany_def)
next
  case False
  define vis where "vis = (if (case dly of None \<Rightarrow> delay q | Some d \<Rightarrow> d) \<noteq> 0
    then plusSecs now (case dly of None \<Rightarrow> delay q | Some d \<Rightarrow> d) else now)"
  have s': "snd (add q p dly now s) =
      s\<lparr>cols := (cols s)(col q := cols s (col q) @ new_docs (next_oid s) vis (arr p)),
        next_oid := next_oid s + length (arr p)\<rparr>"
    using False by (simp add: add_def insertMany_def Let_def vis_def)
  have "unclaimed_clean (cols s (col q) @ new_docs (next_oid s) vis (arr p))"
    using assms by (simp add: unclaimed_clean_append new_docs_unclaimed)
  then show ?thesis
    unfolding s' using assms by simp
qed

lemma ping_acks: "map ack (cols (snd (ping q a vis now s)) n) = map ack (cols s n)"
  and ping_tries: "map tries (cols (snd (ping q a vis now s)) n) = map tries (cols s n)"
proof -
  have "map ack (cols (snd (ping q a vis now s)) n) = map ack (cols s n)
      \<and> map tries (cols (snd (ping q a vis now s)) n) = map tries (cols s n)"
  proof (cases "\<exists>d \<in> set (cols s (col q)). outstanding a now d")
    case False
    then have "\<forall>e \<in> set (cols s (col q)). \<not> outstanding a now e" by blast
    from ping_not_found [OF this] show ?thesis by simp
  next
    case True
    from split_list_first_prop [OF this]
    obtain pre d post where *: "cols s (col q) = pre @ d # post" "outstanding a now d"
      "\<forall>e \<in> set pre. \<not> outstanding a now e" by blast
    show ?thesis using *(1) by (simp add: ping_found [OF *])
  qed
  then show "map ack (cols (snd (ping q a vis now s)) n) = map ack (cols s n)"
    and "map tries (cols (snd (ping q a vis now s)) n) = map tries (cols s n)" by simp_all
qed

lemma ack_op_acks: "map ack (cols (snd (ack_op q a now s)) n) = map ack (cols s n)"
  and ack_op_tries: "map tries (cols (snd (ack_op q a now s)) n) = map tries (cols s n)"
proof -
  have "map ack (cols (snd (ack_op q a now s)) n) = map ack (cols s n)
      \<and> map tries (cols (snd (ack_op q a now s)) n) = map tries (cols s n)"
  proof (cases "\<exists>d \<in> set (cols s (col q)). outstanding a now d")
    case False
    then have "\<forall>e \<in> set (cols s (col q)). \<not> outstanding a now e" by blast
    from ack_op_not_found [OF this] show ?thesis by simp
  next
    case True
    from split_list_first_prop [OF this]
    obtain pre d post where *: "cols s (col q) = pre @ d # post" "outstanding a now d"
      "\<forall>e \<in> set pre. \<not> outstanding a now e" by blast
    show ?thesis using *(1) by (simp add: ack_op_found [OF *])
  qed
  then show "map ack (cols (snd (ack_op q a now s)) n) = map ack (cols s n)"
    and "map tries (cols (snd (ack_op q a now s)) n) = map tries (cols s n)" by simp_all
qed

lemma unclaimed_clean_cong:
  assumes "map ack c' = map ack c" and "map tries c' = map tries c" and "unclaimed_clean c"
  shows "unclaimed_clean c'"
proof -
  have "unclaimed_clean x \<longleftrightarrow>
      (\<forall>p \<in> set (zip (map tries x) (map ack x)). 0 \<le> fst p \<and> (fst p = 0 \<longrightarrow> snd p = None))" for x
    unfolding unclaimed_clean_def by (induction x) auto
  with assms show ?thesis by simp
qed

lemma claim_sets_token:
  assumes "claim q v a now s = Inr (Some msg, c)"
  shows "\<exists>pre m post. cols s (col q) = pre @ m # post \<and> c = pre @ msg # post
           \<and> msg = m\<lparr>tries := tries m + 1, ack := Some a, visible := now + v * 1000\<rparr>"
proof -
  from assms obtain pre m post where "cols s (col q) = pre @ m # post"
    "msg = claim_update a (plusSecs now v) m" "c = pre @ msg # post"
    by (rule claim_split)
  then have "cols s (col q) = pre @ m # post \<and> c = pre @ msg # post
           \<and> msg = m\<lparr>tries := tries m + 1, ack := Some a, visible := now + v * 1000\<rparr>"
    by (simp add: claim_update_def plusSecs_def)
  then show ?thesis by blast
qed

lemma claim_unclaimed:
  assumes u: "\<forall>name. unclaimed_clean (cols s name)"
    and cl: "claim q v a now s = Inr (Some msg, c)"
  shows "\<forall>name. unclaimed_clean (cols (s\<lparr>cols := (cols s)(col q := c)\<rparr>) name)"
    and "0 \<le> tries msg \<and> (tries msg = 0 \<longrightarrow> ack msg = None)"
proof -
  from claim_sets_token [OF cl] obtain pre m post where c0: "cols s (col q) = pre @ m # post"
    and c: "c = pre @ msg # post"
    and msg: "msg = m\<lparr>tries := tries m + 1, ack := Some a, visible := now + v * 1000\<rparr>"
    by blast
  from u c0 have u0: "unclaimed_clean (pre @ m # post)" by metis
  then have "0 \<le> tries m" by (simp add: unclaimed_clean_def)
  then show t: "0 \<le> tries msg \<and> (tries msg = 0 \<longrightarrow> ack msg = None)" by (simp add: msg)
  from unclaimed_clean_replace [OF u0 t] have "unclaimed_clean c" by (simp add: c)
  with u show "\<forall>name. unclaimed_clean (cols (s\<lparr>cols := (cols s)(col q := c)\<rparr>) name)" by simp
qed

lemma moveToDLQ_unclaimed:
  assumes u: "\<forall>name. unclaimed_clean (cols s name)"
    and m: "0 \<le> tries msg \<and> (tries msg = 0 \<longrightarrow> ack msg = None)"
  shows "\<forall>name. unclaimed_clean (cols (snd (moveToDLQ q msg t s)) name)"
proof (cases "deadQueue q")
  case None
  then show ?thesis using u by (simp add: moveToDLQ_def)
next
  case (Some dq)
  show ?thesis
  proof (cases "insertOne msg (cols s (col dq))")
    case (Inl e)
    then show ?thesis using u Some by (simp add: moveToDLQ_def)
  next
    case (Inr c)
    then have c: "c = cols s (col dq) @ [msg]"
      by (auto simp: insertOne_def split: if_splits)
    let ?s1 = "s\<lparr>cols := (cols s)(col dq := c)\<rparr>"
    have "unclaimed_clean [msg]" using m by (simp add: unclaimed_clean_def)
    then have "unclaimed_clean c" using u by (simp add: c unclaimed_clean_append)
    with u have u1: "\<forall>name. unclaimed_clean (cols ?s1 name)" by simp
    let ?c2 = "updateOne_deleted (oid msg) t (cols ?s1 (col q))"
    have "map ack ?c2 = map ack (cols ?s1 (col q))" "map tries ?c2 = map tries (cols ?s1 (col q))"
      unfolding updateOne_deleted_def by (simp_all add: update_first_map)
    moreover have "unclaimed_clean (cols ?s1 (col q))" using u1 by blast
    ultimately have "unclaimed_clean ?c2" by (rule unclaimed_clean_cong)
    then have "unclaimed_clean (cols (?s1\<lparr>cols := (cols ?s1)(col q := ?c2)\<rparr>) name)" for name
      using u1 [rule_format, of name] by (cases "name = col q") simp_all
    then have "\<forall>name. unclaimed_clean (cols (?s1\<lparr>cols := (cols ?s1)(col q := ?c2)\<rparr>) name)"
      by blast
    moreover have "snd (moveToDLQ q msg t s) = ?s1\<lparr>cols := (cols ?s1)(col q := ?c2)\<rparr>"
      using Some Inr by (simp add: moveToDLQ_def Let_def)
    ultimately show ?thesis by simp
  qed
qed

lemma get_unclaimed:
  assumes "\<forall>name. unclaimed_clean (cols s name)"
  shows "\<forall>name. unclaimed_clean (cols (snd (get q vis toks now s)) name)"
  using assms
proof (induction "card (pending_ids q s)" arbitrary: s vis toks rule: less_induct)
  case less
  show ?case
  proof (cases q vis toks now s rule: get_cases)
    case (error e)
    then show ?thesis using less.prems by simp
  next
    case (empty c)
    then show ?thesis using less.prems by simp
  next
    case (return msg c)
    then show ?thesis using claim_unclaimed(1) [OF less.prems return(1)] by simp
  next
    case (move_failed msg c e dq)
    then show ?thesis using claim_unclaimed(1) [OF less.prems move_failed(1)] by simp
  next
    case (recurse msg c s2 dq)
    let ?v = "case vis of None \<Rightarrow> visibility q | Some v \<Rightarrow> v"
    note u1 = claim_unclaimed [OF less.prems recurse(1)]
    from moveToDLQ_unclaimed [OF u1, of q now] recurse(4)
    have u2: "\<forall>name. unclaimed_clean (cols s2 name)" by simp
    have "card (pending_ids q s2) < card (pending_ids q s)"
      using get_step_decreases [OF recurse(1) recurse(4)] recurse(2) by simp
    from less.hyps [OF this u2, of "Some ?v" "\<lambda>n. toks (Suc n)"] recurse(5)
    show ?thesis by simp
  qed
qed

lemma run_unclaimed:
  assumes "\<forall>name. unclaimed_clean (cols s name)"
  shows "\<forall>name. unclaimed_clean (cols (run ops s) name)"
  using assms
proof (induction ops arbitrary: s)
  case Nil
  then show ?case by simp
next
  case (Cons x xs)
  have "\<forall>name. unclaimed_clean (cols (invoke x s) name)"
  proof (cases x)
    case (Add q p dly now)
    then show ?thesis using add_unclaimed [OF Cons.prems] by simp
  next
    case (Get q vis toks now)
    then show ?thesis using get_unclaimed [OF Cons.prems] by simp
  next
    case (Ping q a vis now)
    have "unclaimed_clean (cols (snd (ping q a vis now s)) name)" for name
      using unclaimed_clean_cong [OF ping_acks ping_tries] Cons.prems by blast
    then show ?thesis using Ping by simp
  next
    case (Ack q a now)
    have "unclaimed_clean (cols (snd (ack_op q a now s)) name)" for name
      using unclaimed_clean_cong [OF ack_op_acks ack_op_tries] Cons.prems by blast
    then show ?thesis using Ack by simp
  qed
  from Cons.IH [OF this] show ?case by simp
qed

lemma reachable_unclaimed:
  assumes "d \<in> set (cols (run ops empty_db) name)" and "tries d = 0"
  shows "ack d = None"
proof -
  have "\<forall>name. unclaimed_clean (cols empty_db name)"
    by (simp add: empty_db_def unclaimed_clean_def)
  from run_unclaimed [OF this, of ops] have "unclaimed_clean (cols (run ops empty_db) name)" by blast
  with assms show ?thesis by (simp add: unclaimed_clean_def)
qed

lemma get_returns_token:
  assumes "fst (get q vis toks now s) = Inr (Some j)"
  shows "job_ack j = Some (toks (get_recursions q vis toks now s))
    \<and> (\<exists>d \<in> set (cols (snd (get q vis toks now s)) (col q)).
          oid d = job_id j \<and> ack d = Some (toks (get_recursions q vis toks now s))
          \<and> tries d = job_tries j \<and> payload d = job_payload j)"
  using assms
proof (induction "card (pending_ids q s)" arbitrary: s vis toks rule: less_induct)
  case less
  show ?case
  proof (cases q vis toks now s rule: get_cases)
    case (return msg c)
    from claim_sets_token [OF return(1)] obtain pre m post where "c = pre @ msg # post"
      "msg = m\<lparr>tries := tries m + 1, ack := Some (toks 0),
          visible := now + (case vis of None \<Rightarrow> visibility q | Some v \<Rightarrow> v) * 1000\<rparr>"
      by blast
    then have "msg \<in> set c" "ack msg = Some (toks 0)" by simp_all
    with return(3,4) less.prems show ?thesis by (auto simp: to_job_def)
  next
    case (recurse msg c s2 dq')
    let ?v = "case vis of None \<Rightarrow> visibility q | Some v \<Rightarrow> v"
    have "card (pending_ids q s2) < card (pending_ids q s)"
      using get_step_decreases [OF recurse(1) recurse(4)] recurse(2) by simp
    from less.hyps [OF this, of "Some ?v" "\<lambda>n. toks (Suc n)"] less.prems recurse(5,6)
    show ?thesis by simp
  qed (use less.prems in simp_all)
qed

lemma ack_op_succeeds_iff:
  "(\<exists>i. fst (ack_op q a now s) = Inr i) \<longleftrightarrow>
   (\<exists>d \<in> set (cols s (col q)). ack d = Some a \<and> now < visible d \<and> deleted d = None)"
proof
  assume ok: "\<exists>i. fst (ack_op q a now s) = Inr i"
  show "\<exists>d \<in> set (cols s (col q)). ack d = Some a \<and> now < visible d \<and> deleted d = None"
  proof (rule ccontr)
    assume "\<not> (\<exists>d \<in> set (cols s (col q)). ack d = Some a \<and> now < visible d \<and> deleted d = None)"
    then have "\<forall>e \<in> set (cols s (col q)). \<not> outstanding a now e"
      by (simp add: outstanding_def)
    from ack_op_not_found [OF this] ok show False by simp
  qed
next
  assume "\<exists>d \<in> set (cols s (col q)). ack d = Some a \<and> now < visible d \<and> deleted d = None"
  then have "\<exists>d \<in> set (cols s (col q)). outstanding a now d"
    by (simp add: outstanding_def)
  from split_list_first_prop [OF this]
  obtain pre d post where "cols s (col q) = pre @ d # post" "outstanding a now d"
    "\<forall>e \<in> set pre. \<not> outstanding a now e"
    by blast
  from ack_op_found [OF this] show "\<exists>i. fst (ack_op q a now s) = Inr i" by simp
qed

lemma ping_token_iff:
  "(\<exists>i. fst (ping q a vis now s) = Inr i) \<longleftrightarrow>
   (\<exists>d \<in> set (cols s (col q)). ack d = Some a \<and> now < visible d \<and> deleted d = None)"
proof -
  have "(\<exists>i. fst (ping q a vis now s) = Inr i) \<longleftrightarrow> (\<exists>i s'. ping q a vis now s = (Inr i, s'))"
    by (cases "ping q a vis now s") simp
  then show ?thesis
    unfolding ping_succeeds_iff by (simp add: outstanding_def)
qed

lemma ack_op_marks_token:
  assumes "fst (ack_op q a now s) = Inr i"
  shows "\<exists>d \<in> set (cols (snd (ack_op q a now s)) (col q)).
           oid d = i \<and> ack d = Some a \<and> deleted d = Some now"
proof -
  from assms have "ack_op q a now s = (Inr i, snd (ack_op q a now s))"
    by (cases "ack_op q a now s") simp
  then show ?thesis by (rule ack_op_keeps_token)
qed

text \<open>
  Claim C7, as amended. The records that \<open>add\<close> creates have \<open>tries = 0\<close>, no \<open>ack\<close> and no
  \<open>deleted\<close>; and in every database reached from the empty one by calls of \<open>add\<close>, \<open>get\<close>,
  \<open>ping\<close> and \<open>ack\<close> of any queues, a record that was never claimed (\<open>tries = 0\<close>) has no
  \<open>ack\<close> field. A successful claim replaces one record by itself with \<open>tries\<close> incremented,
  \<open>ack\<close> set to the token generated for this claim and \<open>visible = now + visibility\<close>; the
  job that \<open>get()\<close> returns carries the token generated for the claim that returned it,
  and the record with its identifier stores that token. \<open>ping\<close> and \<open>ack\<close> change the
  \<open>ack\<close> field of no record: after a successful \<open>ack(token)\<close> the acknowledged record has
  \<open>deleted\<close> set and still carries the token, the field is not cleared. Whether a claim is
  outstanding is decided by the token together with \<open>visible > now\<close> and \<open>deleted\<close> absent:
  \<open>ack(token)\<close> and \<open>ping(token)\<close> succeed exactly when a record of the queue carries the
  token and satisfies both.
\<close>

theorem ack_field_life:
  "(add q p dly now s = (Inr r, s') \<longrightarrow>
      (\<exists>new. cols s' (col q) = cols s (col q) @ new
         \<and> (\<forall>d \<in> set new. ack d = None \<and> deleted d = None \<and> tries d = 0)))
   \<and> (d \<in> set (cols (run ops empty_db) name) \<and> tries d = 0 \<longrightarrow> ack d = None)
   \<and> (claim q v a now s = Inr (Some msg, c) \<longrightarrow>
      (\<exists>pre m post. cols s (col q) = pre @ m # post \<and> c = pre @ msg # post
         \<and> msg = m\<lparr>tries := tries m + 1, ack := Some a, visible := now + v * 1000\<rparr>))
   \<and> (fst (get q vis toks now s) = Inr (Some j) \<longrightarrow>
      job_ack j = Some (toks (get_recursions q vis toks now s))
      \<and> (\<exists>d \<in> set (cols (snd (get q vis toks now s)) (col q)).
            oid d = job_id j \<and> ack d = Some (toks (get_recursions q vis toks now s))
            \<and> tries d = job_tries j \<and> payload d = job_payload j))
   \<and> map ack (cols (snd (ping q a vis now s)) name) = map ack (cols s name)
   \<and> map ack (cols (snd (ack_op q a now s)) name) = map ack (cols s name)
   \<and> (fst (ack_op q a now s) = Inr i \<longrightarrow>
      (\<exists>d \<in> set (cols (snd (ack_op q a now s)) (col q)).
          oid d = i \<and> ack d = Some a \<and> deleted d = Some now))
   \<and> ((\<exists>i. fst (ack_op q a now s) = Inr i) \<longleftrightarrow>
      (\<exists>d \<in> set (cols s (col q)). ack d = Some a \<and> now < visible d \<and> deleted d = None))
   \<and> ((\<exists>i. fst (ping q a vis now s) = Inr i) \<longleftrightarrow>
      (\<exists>d \<in> set (cols s (col q)). ack d = Some a \<and> now < visible d \<and> deleted d = None))"
proof (intro conjI impI)
  assume "add q p dly now s = (Inr r, s')"
  then show "\<exists>new. cols s' (col q) = cols s (col q) @ new
         \<and> (\<forall>d \<in> set new. ack d = None \<and> deleted d = None \<and> tries d = 0)"
    by (rule add_new_docs)
next
  assume "d \<in> set (cols (run ops empty_db) name) \<and> tries d = 0"
  then show "ack d = None" using reachable_unclaimed by blast
next
  assume "claim q v a now s = Inr (Some msg, c)"
  then show "\<exists>pre m post. cols s (col q) = pre @ m # post \<and> c = pre @ msg # post
         \<and> msg = m\<lparr>tries := tries m + 1, ack := Some a, visible := now + v * 1000\<rparr>"
    by (rule claim_sets_token)
next
  assume g: "fst (get q vis toks now s) = Inr (Some j)"
  from get_returns_token [OF g]
  show "job_ack j = Some (toks (get_recursions q vis toks now s))" ..
  from get_returns_token [OF g]
  show "\<exists>d \<in> set (cols (snd (get q vis toks now s)) (col q)).
            oid d = job_id j \<and> ack d = Some (toks (get_recursions q vis toks now s))
            \<and> tries d = job_tries j \<and> payload d = job_payload j" ..
next
  show "map ack (cols (snd (ping q a vis now s)) name) = map ack (cols s name)"
    by (rule ping_acks)
next
  show "map ack (cols (snd (ack_op q a now s)) name) = map ack (cols s name)"
    by (rule ack_op_acks)
next
  assume "fst (ack_op q a now s) = Inr i"
  then show "\<exists>d \<in> set (cols (snd (ack_op q a now s)) (col q)).
          oid d = i \<and> ack d = Some a \<and> deleted d = Some now"
    by (rule ack_op_marks_token)
next
  show "(\<exists>i. fst (ack_op q a now s) = Inr i) \<longleftrightarrow>
      (\<exists>d \<in> set (cols s (col q)). ack d = Some a \<and> now < visible d \<and> deleted d = None)"
    by (rule ack_op_succeeds_iff)
next
  show "(\<exists>i. fst (ping q a vis now s) = Inr i) \<longleftrightarrow>
      (\<exists>d \<in> set (cols s (col q)). ack d = Some a \<and> now < visible d \<and> deleted d = None)"
    by (rule ping_token_iff)
qed

lemma add_get_ack_trace:
  "add Q1 (JStr ''job1'') None 0 empty_db = (Inr (Id 0), db_one)"
  "fst (get Q1 None toks0 0 db_one) =
     Inr (Some \<lparr>job_id = 0, job_ack = Some ''a'', job_payload = JStr ''job1'', job_tries = 1\<rparr>)"
  "get_recursions Q1 None toks0 0 db_one = 0"
  "fst (ack_op Q1 ''a'' 1 (snd (get Q1 None toks0 0 db_one))) = Inr 0"
  by (simp_all add: get.simps get_recursions.simps ack_op_def outstanding_def Q1_def toks0_def
      empty_db_def db_one_def add_def insertMany_def claim_def findOneAndUpdate_def claimable_def
      claim_update_def plusSecs_def to_job_def Let_def)

theorem ack_field_life_witness:
  "ack (hd (cols (run [Add Q1 (JStr ''job1'') None 0] empty_db) ''jobs'')) = None
   \<and> (\<exists>d \<in> set (cols (snd (get Q1 None toks0 0 (snd (add Q1 (JStr ''job1'') None 0 empty_db))))
          (col Q1)).
        oid d = 0 \<and> ack d = Some (toks0 0) \<and> tries d = 1 \<and> payload d = JStr ''job1'')
   \<and> (\<exists>d \<in> set (cols (snd (ack_op Q1 ''a'' 1
          (snd (get Q1 None toks0 0 (snd (add Q1 (JStr ''job1'') None 0 empty_db)))))) (col Q1)).
        oid d = 0 \<and> ack d = Some ''a'' \<and> deleted d = Some 1)"
proof -
  let ?s1 = "snd (add Q1 (JStr ''job1'') None 0 empty_db)"
  let ?j = "\<lparr>job_id = 0, job_ack = Some ''a'', job_payload = JStr ''job1'', job_tries = 1\<rparr>"
  have s1: "?s1 = db_one" by (simp add: add_get_ack_trace(1))
  have r: "run [Add Q1 (JStr ''job1'') None 0] empty_db = db_one" by (simp add: s1)
  have h1: "hd (cols (run [Add Q1 (JStr ''job1'') None 0] empty_db) ''jobs'')
        \<in> set (cols (run [Add Q1 (JStr ''job1'') None 0] empty_db) ''jobs'')
      \<and> tries (hd (cols (run [Add Q1 (JStr ''job1'') None 0] empty_db) ''jobs'')) = 0"
    unfolding r by (simp add: db_one_def)
  have h2: "fst (get Q1 None toks0 0 ?s1) = Inr (Some ?j)"
    unfolding s1 by (rule add_get_ack_trace(2))
  have h3: "fst (ack_op Q1 ''a'' 1 (snd (get Q1 None toks0 0 ?s1))) = Inr 0"
    unfolding s1 by (rule add_get_ack_trace(4))
  have n: "get_recursions Q1 None toks0 0 ?s1 = 0"
    unfolding s1 by (rule add_get_ack_trace(3))
  note t = ack_field_life [where q = Q1 and a = "''a''" and now = 0 and vis = None
      and toks = toks0 and s = ?s1 and j = ?j and ops = "[Add Q1 (JStr ''job1'') None 0]"
      and name = "''jobs''"
      and d = "hd (cols (run [Add Q1 (JStr ''job1'') None 0] empty_db) ''jobs'')"]
  note u = ack_field_life [where q = Q1 and a = "''a''" and now = 1
      and s = "snd (get Q1 None toks0 0 ?s1)" and i = 0]
  from t h1 have c1: "ack (hd (cols (run [Add Q1 (JStr ''job1'') None 0] empty_db) ''jobs'')) = None"
    by blast
  from t h2 have "\<exists>d \<in> set (cols (snd (get Q1 None toks0 0 ?s1)) (col Q1)).
        oid d = job_id ?j \<and> ack d = Some (toks0 (get_recursions Q1 None toks0 0 ?s1))
        \<and> tries d = job_tries ?j \<and> payload d = job_payload ?j"
    by blast
  then have c2: "\<exists>d \<in> set (cols (snd (get Q1 None toks0 0 ?s1)) (col Q1)).
        oid d = 0 \<and> ack d = Some (toks0 0) \<and> tries d = 1 \<and> payload d = JStr ''job1''"
    unfolding n by simp
  from u h3 have c3: "\<exists>d \<in> set (cols (snd (ack_op Q1 ''a'' 1 (snd (get Q1 None toks0 0 ?s1)))) (col Q1)).
        oid d = 0 \<and> ack d = Some ''a'' \<and> deleted d = Some 1"
    by blast
  from c1 c2 c3 show ?thesis by blast
qed

text \<open>
  The claim as stated fails: after \<open>add\<close>, \<open>get\<close> and a successful \<open>ack\<close> the document
  has \<open>deleted\<close> set and still carries its token.
\<close>

theorem ack_field_counterexample:
  "fst (ack_op Q1 ''a'' 1 (snd (get Q1 None toks0 0 (snd (add Q1 (JStr ''job1'') None 0 empty_db))))) = Inr 0
   \<and> cols (snd (ack_op Q1 ''a'' 1 (snd (get Q1 None toks0 0 (snd (add Q1 (JStr ''job1'') None 0 empty_db))))))
        ''jobs'' =
     [\<lparr>oid = 0, payload = JStr ''job1'', visible = 30000, tries = 1, ack = Some ''a'', deleted = Some 1\<rparr>]"
  by (simp add: get.simps ack_op_def outstanding_def Q1_def toks0_def empty_db_def add_def
      insertMany_def claim_def findOneAndUpdate_def claimable_def claim_update_def plusSecs_def
      to_job_def Let_def)

end
